theory Spec2Isabelle
  imports Main "HOL-Library.Monad_Syntax"
begin

section \<open>The data model of zerolist\<close>

text \<open>
  A shallow embedding of \<^verbatim>\<open>zerolist.c\<close> / \<^verbatim>\<open>zerolist.h\<close>: an intrusive circular
  doubly-linked list whose nodes come from the heap, from a fixed arena, or from an arena
  that grows by \<^verbatim>\<open>realloc\<close>.

  Conventions of the embedding.
  \<^item> A pointer is an address, a natural number; \<open>0\<close> is \<^verbatim>\<open>NULL\<close>. Node memory is a total
    function from addresses to nodes, so a read through a dangling pointer returns whatever
    the memory holds there; the theorems state the well-formedness under which every access
    is to a live node.
  \<^item> The build-time macros (\<^verbatim>\<open>ZEROLIST_USE_MALLOC\<close>, \<^verbatim>\<open>ZEROLIST_FAST_ALLOC\<close>, ...)
    are the fields of a \<open>config\<close> value; every \<^verbatim>\<open>#if\<close> of the source is an \<open>if\<close> on it.
    \<^verbatim>\<open>ZEROLIST_TYPE\<close> is an unsigned integer of \<open>TYPE_BITS\<close> bits: its values are
    naturals and every conversion to it is written \<open>ZT cfg\<close> (reduction modulo
    \<open>2 ^ TYPE_BITS\<close>). \<^verbatim>\<open>sizeof(zerolist_node_t)\<close> is \<open>NODE_SIZE\<close>.
  \<^item> The list object itself always exists: the state holds it, so the guard
    \<^verbatim>\<open>if (!list) return ...\<close> that opens every public function is never taken.
  \<^item> \<^verbatim>\<open>ZEROLIST_MALLOC\<close> and \<^verbatim>\<open>ZEROLIST_REALLOC\<close> are answered by the environment:
    the state carries the list \<open>env\<close> of the addresses the allocator is going to return,
    in order (\<open>0\<close> for a failed request; an exhausted list fails every request).
    \<^verbatim>\<open>ZEROLIST_FREE\<close> records the released address in \<open>freed\<close>.
  \<^item> A loop whose exit depends on the shape of the ring is a \<open>partial_function\<close> in the
    option monad: \<open>None\<close> means that the loop does not return.
\<close>

type_synonym addr = nat

record node =
  data :: addr
  prev :: addr
  "next" :: addr
  in_use :: bool
  index :: nat

record Zerolist =
  size_l :: nat
  head :: addr
  tail :: addr
  node_buf :: addr
  max_nodes :: nat
  free_top :: nat
  free_stack :: addr

record config =
  USE_MALLOC :: bool
  FAST_ALLOC :: bool
  SIZE_ENABLE :: bool
  STATIC_FALLBACK_MALLOC :: bool
  STATIC_DYNAMIC_EXPAND :: bool
  TYPE_BITS :: nat
  NODE_SIZE :: nat

text \<open>The \<^verbatim>\<open>#error\<close> checks of the header, and the two sizes being positive.\<close>

definition valid_config :: "config \<Rightarrow> bool" where
  "valid_config cfg \<longleftrightarrow>
     \<not> (USE_MALLOC cfg \<and> FAST_ALLOC cfg) \<and>
     \<not> (USE_MALLOC cfg \<and> STATIC_FALLBACK_MALLOC cfg) \<and>
     \<not> (USE_MALLOC cfg \<and> STATIC_DYNAMIC_EXPAND cfg) \<and>
     \<not> (STATIC_DYNAMIC_EXPAND cfg \<and> STATIC_FALLBACK_MALLOC cfg) \<and>
     0 < TYPE_BITS cfg \<and> 0 < NODE_SIZE cfg"

record state =
  lst :: Zerolist
  mem :: "addr \<Rightarrow> node"
  stk :: "nat \<Rightarrow> nat"
  env :: "addr list"
  freed :: "addr list"

text \<open>Conversion to \<^verbatim>\<open>ZEROLIST_TYPE\<close>, and its largest value \<^verbatim>\<open>(ZEROLIST_TYPE)-1\<close>.\<close>

definition ZT :: "config \<Rightarrow> nat \<Rightarrow> nat" where
  "ZT cfg n = n mod 2 ^ TYPE_BITS cfg"

definition ZT_MAX :: "config \<Rightarrow> nat" where
  "ZT_MAX cfg = 2 ^ TYPE_BITS cfg - 1"

text \<open>\<^verbatim>\<open>(ZEROLIST_TYPE)(p - q)\<close> for two node pointers: the distance in nodes.\<close>

definition ptr_index :: "config \<Rightarrow> addr \<Rightarrow> addr \<Rightarrow> nat" where
  "ptr_index cfg p q =
     nat (((int p - int q) div int (NODE_SIZE cfg)) mod 2 ^ TYPE_BITS cfg)"

text \<open>\<^verbatim>\<open>&list->node_buf[i]\<close>.\<close>

definition slot :: "config \<Rightarrow> state \<Rightarrow> nat \<Rightarrow> addr" where
  "slot cfg s i = node_buf (lst s) + i * NODE_SIZE cfg"

subsection \<open>Writes to a node\<close>

definition wr_data :: "state \<Rightarrow> addr \<Rightarrow> addr \<Rightarrow> state" where
  "wr_data s a v = s\<lparr>mem := (mem s)(a := (mem s a)\<lparr>data := v\<rparr>)\<rparr>"

definition wr_prev :: "state \<Rightarrow> addr \<Rightarrow> addr \<Rightarrow> state" where
  "wr_prev s a v = s\<lparr>mem := (mem s)(a := (mem s a)\<lparr>prev := v\<rparr>)\<rparr>"

definition wr_next :: "state \<Rightarrow> addr \<Rightarrow> addr \<Rightarrow> state" where
  "wr_next s a v = s\<lparr>mem := (mem s)(a := (mem s a)\<lparr>next := v\<rparr>)\<rparr>"

text \<open>
  The bit-field \<^verbatim>\<open>flags.index\<close> has \<open>TYPE_BITS - 1\<close> bits; a store to it keeps the low
  bits of the value.
\<close>

definition wr_flags :: "config \<Rightarrow> state \<Rightarrow> addr \<Rightarrow> bool \<Rightarrow> nat \<Rightarrow> state" where
  "wr_flags cfg s a u i =
     s\<lparr>mem := (mem s)(a := (mem s a)\<lparr>in_use := u, index := i mod 2 ^ (TYPE_BITS cfg - 1)\<rparr>)\<rparr>"

definition NODE_IS_IN_USE :: "state \<Rightarrow> addr \<Rightarrow> bool" where
  "NODE_IS_IN_USE s a \<longleftrightarrow> a \<noteq> 0 \<and> in_use (mem s a)"

definition NODE_SET_IN_USE :: "config \<Rightarrow> state \<Rightarrow> addr \<Rightarrow> nat \<Rightarrow> state" where
  "NODE_SET_IN_USE cfg s a idx = (if a \<noteq> 0 then wr_flags cfg s a True (ZT cfg idx) else s)"

definition NODE_SET_IN_USE_SIMPLE :: "config \<Rightarrow> state \<Rightarrow> addr \<Rightarrow> state" where
  "NODE_SET_IN_USE_SIMPLE cfg s a = (if a \<noteq> 0 then wr_flags cfg s a True 0 else s)"

definition NODE_SET_FREE :: "config \<Rightarrow> state \<Rightarrow> addr \<Rightarrow> state" where
  "NODE_SET_FREE cfg s a = (if a \<noteq> 0 then wr_flags cfg s a False 0 else s)"

subsection \<open>The allocator of the environment\<close>

definition ZEROLIST_MALLOC :: "state \<Rightarrow> addr \<times> state" where
  "ZEROLIST_MALLOC s =
     (case env s of [] \<Rightarrow> (0, s) | a # as \<Rightarrow> (a, s\<lparr>env := as\<rparr>))"

definition ZEROLIST_FREE :: "state \<Rightarrow> addr \<Rightarrow> state" where
  "ZEROLIST_FREE s a = s\<lparr>freed := freed s @ [a]\<rparr>"

text \<open>
  \<^verbatim>\<open>ZEROLIST_REALLOC\<close> of the node buffer \<open>old\<close> of \<open>old_n\<close> nodes to \<open>new_n\<close> nodes. When the
  answer is another address, the nodes up to the smaller of the two sizes are copied
  there; the rest of the new block holds whatever was there before.
\<close>

definition in_block :: "config \<Rightarrow> addr \<Rightarrow> nat \<Rightarrow> addr \<Rightarrow> bool" where
  "in_block cfg b n x \<longleftrightarrow>
     b \<le> x \<and> x < b + n * NODE_SIZE cfg \<and> (x - b) mod NODE_SIZE cfg = 0"

definition ZEROLIST_REALLOC_nodes ::
    "config \<Rightarrow> state \<Rightarrow> addr \<Rightarrow> nat \<Rightarrow> nat \<Rightarrow> addr \<times> state" where
  "ZEROLIST_REALLOC_nodes cfg s old old_n new_n =
     (case env s of
        [] \<Rightarrow> (0, s)
      | a # as \<Rightarrow>
          if a = 0 \<or> a = old then (a, s\<lparr>env := as\<rparr>)
          else (a, s\<lparr>env := as,
                     mem := (\<lambda>x. if in_block cfg a (min old_n new_n) x
                                  then mem s (old + (x - a)) else mem s x)\<rparr>))"

text \<open>
  \<^verbatim>\<open>ZEROLIST_REALLOC\<close> of the free stack. \<open>stk\<close> is the array \<^verbatim>\<open>list->free_stack\<close> points
  to, by position, so that a move keeps it as it is.
\<close>

definition ZEROLIST_REALLOC_stack :: "state \<Rightarrow> addr \<times> state" where
  "ZEROLIST_REALLOC_stack s =
     (case env s of [] \<Rightarrow> (0, s) | a # as \<Rightarrow> (a, s\<lparr>env := as\<rparr>))"

section \<open>Node management\<close>

definition zerolist_is_static_node :: "config \<Rightarrow> state \<Rightarrow> addr \<Rightarrow> bool" where
  "zerolist_is_static_node cfg s node =
     (if \<not> USE_MALLOC cfg then
        if node_buf (lst s) = 0 \<or> node = 0 then False
        else
          let base = node_buf (lst s);
              end_addr = base + max_nodes (lst s) * NODE_SIZE cfg
          in node \<ge> base \<and> node < end_addr
      else False)"

definition zerolist_calc_node_index :: "config \<Rightarrow> state \<Rightarrow> addr \<Rightarrow> nat" where
  "zerolist_calc_node_index cfg s node =
     (if node = 0 \<or> node_buf (lst s) = 0 then 0
      else if node < node_buf (lst s) then 0
      else ZT cfg ((node - node_buf (lst s)) div NODE_SIZE cfg))"

text \<open>
  The allocation macros assign to the caller's \<^verbatim>\<open>node\<close> and \<^verbatim>\<open>idx\<close>; here they return them
  with the state.
\<close>

definition ZEROLIST_ALLOC_FROM_STACK ::
    "config \<Rightarrow> state \<Rightarrow> addr \<Rightarrow> nat \<Rightarrow> addr \<times> nat \<times> state" where
  "ZEROLIST_ALLOC_FROM_STACK cfg s node idx =
     (if free_top (lst s) > 0 then
        let top = ZT cfg (free_top (lst s) - 1);
            s1 = s\<lparr>lst := (lst s)\<lparr>free_top := top\<rparr>\<rparr>;
            idx1 = stk s1 top
        in (slot cfg s1 idx1, idx1, s1)
      else (node, idx, s))"

definition ZEROLIST_ALLOC_FROM_SEARCH ::
    "config \<Rightarrow> state \<Rightarrow> addr \<Rightarrow> nat \<Rightarrow> addr \<times> nat \<times> state" where
  "ZEROLIST_ALLOC_FROM_SEARCH cfg s node idx =
     (case find (\<lambda>i. \<not> NODE_IS_IN_USE s (slot cfg s i)) [0..<max_nodes (lst s)] of
        Some i \<Rightarrow> (slot cfg s i, i, s)
      | None \<Rightarrow> (node, idx, s))"

definition ZEROLIST_TRY_ALLOC_STATIC ::
    "config \<Rightarrow> state \<Rightarrow> addr \<Rightarrow> nat \<Rightarrow> addr \<times> nat \<times> state" where
  "ZEROLIST_TRY_ALLOC_STATIC cfg s node idx =
     (if FAST_ALLOC cfg then ZEROLIST_ALLOC_FROM_STACK cfg s node idx
      else ZEROLIST_ALLOC_FROM_SEARCH cfg s node idx)"

definition ZEROLIST_FREE_TO_STACK :: "config \<Rightarrow> state \<Rightarrow> addr \<Rightarrow> nat \<Rightarrow> state" where
  "ZEROLIST_FREE_TO_STACK cfg s node idx =
     (if free_stack (lst s) \<noteq> 0 \<and> free_top (lst s) < max_nodes (lst s) then
        if idx < max_nodes (lst s) then
          s\<lparr>stk := (stk s)(free_top (lst s) := idx),
            lst := (lst s)\<lparr>free_top := ZT cfg (free_top (lst s) + 1)\<rparr>\<rparr>
        else s
      else s)"

definition ZEROLIST_FREE_STATIC_NODE :: "config \<Rightarrow> state \<Rightarrow> addr \<Rightarrow> nat \<Rightarrow> state" where
  "ZEROLIST_FREE_STATIC_NODE cfg s node idx =
     (let s1 = NODE_SET_FREE cfg s node;
          s2 = wr_data s1 node 0;
          s3 = wr_next s2 node node;
          s4 = wr_prev s3 node node
      in if FAST_ALLOC cfg then ZEROLIST_FREE_TO_STACK cfg s4 node idx else s4)"

definition zerolist_free_node :: "config \<Rightarrow> state \<Rightarrow> addr \<Rightarrow> state" where
  "zerolist_free_node cfg s node =
     (if node = 0 then s
      else if USE_MALLOC cfg then ZEROLIST_FREE s node
      else if STATIC_FALLBACK_MALLOC cfg then
        if zerolist_is_static_node cfg s node then
          ZEROLIST_FREE_STATIC_NODE cfg s node (zerolist_calc_node_index cfg s node)
        else ZEROLIST_FREE s node
      else ZEROLIST_FREE_STATIC_NODE cfg s node (zerolist_calc_node_index cfg s node))"

section \<open>Initialisation\<close>

text \<open>\<^verbatim>\<open>memset(list, 0, sizeof(Zerolist))\<close>.\<close>

definition list_init_dynamic :: "state \<Rightarrow> bool \<times> state" where
  "list_init_dynamic s =
     (True, s\<lparr>lst := \<lparr>size_l = 0, head = 0, tail = 0, node_buf = 0, max_nodes = 0,
                      free_top = 0, free_stack = 0\<rparr>\<rparr>)"

text \<open>
  One round of the initialisation loop over the slots of \<open>buf\<close>, with and without the
  free stack. A store through \<^verbatim>\<open>free_stack\<close> goes to \<open>stk\<close>.
\<close>

definition init_slot_fast :: "config \<Rightarrow> addr \<Rightarrow> nat \<Rightarrow> nat \<Rightarrow> state \<Rightarrow> state" where
  "init_slot_fast cfg buf n i s =
     wr_flags cfg (s\<lparr>stk := (stk s)(i := ZT cfg (n - 1 - i))\<rparr>)
       (buf + i * NODE_SIZE cfg) False i"

definition init_slot :: "config \<Rightarrow> addr \<Rightarrow> nat \<Rightarrow> state \<Rightarrow> state" where
  "init_slot cfg buf i s = wr_flags cfg s (buf + i * NODE_SIZE cfg) False i"

definition zerolist_init_expand :: "config \<Rightarrow> state \<Rightarrow> addr \<Rightarrow> addr \<Rightarrow> nat \<Rightarrow> state" where
  "zerolist_init_expand cfg s buf fs n =
     (if buf = 0 \<or> n = 0 then s
      else
        let l1 = (lst s)\<lparr>head := 0, node_buf := buf, max_nodes := n\<rparr>;
            l2 = (if SIZE_ENABLE cfg then l1\<lparr>size_l := 0\<rparr> else l1)
        in if FAST_ALLOC cfg then
             fold (init_slot_fast cfg buf n) [0..<n]
               (s\<lparr>lst := l2\<lparr>free_stack := fs, free_top := n\<rparr>\<rparr>)
           else fold (init_slot cfg buf) [0..<n] (s\<lparr>lst := l2\<rparr>))"

definition list_init_dynamic_expand :: "config \<Rightarrow> state \<Rightarrow> nat \<Rightarrow> bool \<times> state" where
  "list_init_dynamic_expand cfg s initial_size =
     (if initial_size = 0 then (False, s)
      else
        let (buf, s1) = ZEROLIST_MALLOC s in
        if buf = 0 then (False, s1)
        else
          let (fs, s2) = (if FAST_ALLOC cfg then ZEROLIST_MALLOC s1 else (0, s1)) in
          if FAST_ALLOC cfg \<and> fs = 0 then (False, ZEROLIST_FREE s2 buf)
          else
            let l1 = (lst s2)\<lparr>head := 0, node_buf := buf, max_nodes := initial_size\<rparr>;
                l2 = (if SIZE_ENABLE cfg then l1\<lparr>size_l := 0\<rparr> else l1)
            in if FAST_ALLOC cfg then
                 (True, fold (init_slot_fast cfg buf initial_size) [0..<initial_size]
                          (s2\<lparr>lst := l2\<lparr>free_stack := fs, free_top := initial_size\<rparr>\<rparr>))
               else (True, fold (init_slot cfg buf) [0..<initial_size] (s2\<lparr>lst := l2\<rparr>)))"

section \<open>Growing and shrinking the arena\<close>

partial_function (option) update_node_pointers_loop ::
    "config \<Rightarrow> addr \<Rightarrow> addr \<Rightarrow> nat \<Rightarrow> state \<Rightarrow> addr \<Rightarrow> state option" where
  "update_node_pointers_loop cfg old_buf new_buf new_size s cur =
     (let cur_idx = ptr_index cfg cur new_buf;
          prev_idx0 = ptr_index cfg (prev (mem s cur)) old_buf;
          next_idx0 = ptr_index cfg (next (mem s cur)) old_buf;
          prev_idx = (if prev_idx0 \<ge> new_size then cur_idx else prev_idx0);
          next_idx = (if next_idx0 \<ge> new_size then cur_idx else next_idx0);
          s1 = wr_prev s cur (new_buf + prev_idx * NODE_SIZE cfg);
          s2 = wr_next s1 cur (new_buf + next_idx * NODE_SIZE cfg);
          cur' = next (mem s2 cur)
      in if cur' \<noteq> head (lst s2)
         then update_node_pointers_loop cfg old_buf new_buf new_size s2 cur'
         else Some s2)"

definition zerolist_update_node_pointers ::
    "config \<Rightarrow> state \<Rightarrow> addr \<Rightarrow> addr \<Rightarrow> nat \<Rightarrow> nat \<Rightarrow> state option" where
  "zerolist_update_node_pointers cfg s old_buf new_buf old_size new_size =
     (let s1 = s\<lparr>lst := (lst s)\<lparr>node_buf := new_buf\<rparr>\<rparr> in
      if new_buf = old_buf \<or> head (lst s1) = 0 then Some s1
      else
        let head_idx = ptr_index cfg (head (lst s1)) old_buf;
            s2 = s1\<lparr>lst := (lst s1)\<lparr>head := new_buf + head_idx * NODE_SIZE cfg\<rparr>\<rparr>
        in update_node_pointers_loop cfg old_buf new_buf new_size s2 (head (lst s2)))"

definition zerolist_rollback_realloc ::
    "config \<Rightarrow> state \<Rightarrow> addr \<Rightarrow> addr \<Rightarrow> nat \<Rightarrow> nat \<Rightarrow> (bool \<times> state) option" where
  "zerolist_rollback_realloc cfg s new_buf old_buf old_size new_size =
     (let (rollback_buf, s1) = ZEROLIST_REALLOC_nodes cfg s new_buf new_size old_size in
      if rollback_buf = 0 then Some (False, s1)
      else do {
        s2 \<leftarrow> (if rollback_buf \<noteq> new_buf \<and> head (lst s1) \<noteq> 0
               then zerolist_update_node_pointers cfg s1 new_buf rollback_buf new_size old_size
               else Some s1);
        Some (True, s2\<lparr>lst := (lst s2)\<lparr>node_buf := rollback_buf\<rparr>\<rparr>)
      })"

definition expand_slot_fast :: "config \<Rightarrow> nat \<Rightarrow> state \<Rightarrow> state" where
  "expand_slot_fast cfg i s =
     (let s1 = wr_flags cfg s (slot cfg s i) False i
      in s1\<lparr>stk := (stk s1)(free_top (lst s1) := i),
            lst := (lst s1)\<lparr>free_top := ZT cfg (free_top (lst s1) + 1)\<rparr>\<rparr>)"

definition expand_slot :: "config \<Rightarrow> nat \<Rightarrow> state \<Rightarrow> state" where
  "expand_slot cfg i s = wr_flags cfg s (slot cfg s i) False i"

definition zerolist_expand_buffer :: "config \<Rightarrow> state \<Rightarrow> nat \<Rightarrow> (bool \<times> state) option" where
  "zerolist_expand_buffer cfg s new_size =
     (if new_size \<le> max_nodes (lst s) then Some (False, s)
      else
        let old_buf = node_buf (lst s);
            old_size = max_nodes (lst s);
            (new_buf, s1) = ZEROLIST_REALLOC_nodes cfg s old_buf old_size new_size
        in if new_buf = 0 then Some (False, s1)
           else do {
             s2 \<leftarrow> zerolist_update_node_pointers cfg s1 old_buf new_buf old_size new_size;
             if FAST_ALLOC cfg then
               let (new_stack, s3) = ZEROLIST_REALLOC_stack s2 in
               if new_stack = 0 then do {
                 (ok, s4) \<leftarrow> zerolist_rollback_realloc cfg s3 new_buf old_buf old_size new_size;
                 Some (False, if \<not> ok then s4\<lparr>lst := (lst s4)\<lparr>node_buf := old_buf\<rparr>\<rparr> else s4)
               }
               else
                 let s4 = s3\<lparr>lst := (lst s3)\<lparr>free_stack := new_stack\<rparr>\<rparr>;
                     s5 = fold (expand_slot_fast cfg) [old_size..<new_size] s4
                 in Some (True, s5\<lparr>lst := (lst s5)\<lparr>max_nodes := new_size\<rparr>\<rparr>)
             else
               let s3 = fold (expand_slot cfg) [old_size..<new_size] s2
               in Some (True, s3\<lparr>lst := (lst s3)\<lparr>max_nodes := new_size\<rparr>\<rparr>)
           })"

section \<open>Size\<close>

partial_function (option) zerolist_size_loop ::
    "config \<Rightarrow> state \<Rightarrow> addr \<Rightarrow> nat \<Rightarrow> nat option" where
  "zerolist_size_loop cfg s cur cnt =
     (let cnt' = ZT cfg (cnt + 1);
          cur' = next (mem s cur)
      in if cur' \<noteq> head (lst s) then zerolist_size_loop cfg s cur' cnt' else Some cnt')"

definition zerolist_size :: "config \<Rightarrow> state \<Rightarrow> nat option" where
  "zerolist_size cfg s =
     (if SIZE_ENABLE cfg then Some (size_l (lst s))
      else if head (lst s) = 0 then Some 0
      else zerolist_size_loop cfg s (head (lst s)) 0)"

text \<open>\<^verbatim>\<open>--list->size\<close> on the unsigned \<^verbatim>\<open>ZEROLIST_TYPE\<close>.\<close>

definition ZT_dec :: "config \<Rightarrow> nat \<Rightarrow> nat" where
  "ZT_dec cfg n = ZT cfg (n + ZT_MAX cfg)"

definition size_dec :: "config \<Rightarrow> state \<Rightarrow> state" where
  "size_dec cfg s =
     (if SIZE_ENABLE cfg then s\<lparr>lst := (lst s)\<lparr>size_l := ZT_dec cfg (size_l (lst s))\<rparr>\<rparr> else s)"

section \<open>Shrinking\<close>

definition shrink_slot :: "config \<Rightarrow> nat \<Rightarrow> state \<Rightarrow> state" where
  "shrink_slot cfg i s =
     (if \<not> in_use (mem s (slot cfg s i)) then
        s\<lparr>stk := (stk s)(free_top (lst s) := i),
          lst := (lst s)\<lparr>free_top := ZT cfg (free_top (lst s) + 1)\<rparr>\<rparr>
      else s)"

definition zerolist_shrink_buffer :: "config \<Rightarrow> state \<Rightarrow> nat \<Rightarrow> (bool \<times> state) option" where
  "zerolist_shrink_buffer cfg s new_size0 = do {
     used_nodes \<leftarrow> zerolist_size cfg s;
     let new_size = (if new_size0 \<le> used_nodes then ZT cfg (used_nodes * 2) else new_size0) in
     if new_size \<ge> max_nodes (lst s) then Some (True, s)
     else
       let old_buf = node_buf (lst s);
           old_size = max_nodes (lst s);
           (new_buf, s1) = ZEROLIST_REALLOC_nodes cfg s old_buf old_size new_size
       in if new_buf = 0 then Some (False, s1)
          else do {
            s2 \<leftarrow> zerolist_update_node_pointers cfg s1 old_buf new_buf old_size new_size;
            if FAST_ALLOC cfg then
              let (new_stack, s3) = ZEROLIST_REALLOC_stack s2 in
              if new_stack = 0 then do {
                (ok, s4) \<leftarrow> zerolist_rollback_realloc cfg s3 new_buf old_buf old_size new_size;
                Some (False, if \<not> ok then s4\<lparr>lst := (lst s4)\<lparr>node_buf := old_buf\<rparr>\<rparr> else s4)
              }
              else
                let s4 = s3\<lparr>lst := (lst s3)\<lparr>free_stack := new_stack, free_top := 0\<rparr>\<rparr>;
                    s5 = fold (shrink_slot cfg) [0..<new_size] s4
                in Some (True, s5\<lparr>lst := (lst s5)\<lparr>max_nodes := new_size\<rparr>\<rparr>)
            else Some (True, s2\<lparr>lst := (lst s2)\<lparr>max_nodes := new_size\<rparr>\<rparr>)
          }
   }"

section \<open>Acquiring a node\<close>

text \<open>The common tail of \<^verbatim>\<open>_zerolist_alloc_node\<close>: the node taken from the arena is reset.\<close>

definition init_static_node :: "config \<Rightarrow> state \<Rightarrow> addr \<Rightarrow> nat \<Rightarrow> addr \<times> state" where
  "init_static_node cfg s node idx =
     (let s1 = wr_next s node node;
          s2 = wr_prev s1 node node;
          s3 = NODE_SET_IN_USE cfg s2 node idx;
          s4 = wr_data s3 node 0
      in (node, s4))"

text \<open>
  The end of the growth branch of \<^verbatim>\<open>_zerolist_alloc_node\<close>, once \<^verbatim>\<open>new_size\<close> is
  settled: grow, try the arena again, reset the node.
\<close>

definition zerolist_alloc_retry ::
    "config \<Rightarrow> state \<Rightarrow> addr \<Rightarrow> nat \<Rightarrow> nat \<Rightarrow> (addr \<times> state) option" where
  "zerolist_alloc_retry cfg s1 node idx new_size = do {
     (ok, s2) \<leftarrow> zerolist_expand_buffer cfg s1 new_size;
     if \<not> ok then Some (0, s2)
     else
       let (node2, idx2, s3) = ZEROLIST_TRY_ALLOC_STATIC cfg s2 node idx in
       if node2 = 0 then Some (0, s3)
       else Some (init_static_node cfg s3 node2 idx2)
   }"

definition zerolist_alloc_node :: "config \<Rightarrow> state \<Rightarrow> (addr \<times> state) option" where
  "zerolist_alloc_node cfg s =
     (if USE_MALLOC cfg then
        let (node, s1) = ZEROLIST_MALLOC s in
        if node = 0 then Some (0, s1)
        else
          let s2 = wr_prev s1 node node;
              s3 = wr_next s2 node node;
              s4 = wr_data s3 node 0
          in Some (node, s4)
      else if node_buf (lst s) = 0 \<or> max_nodes (lst s) = 0 then Some (0, s)
      else
        let (node, idx, s1) = ZEROLIST_TRY_ALLOC_STATIC cfg s 0 0 in
        if STATIC_DYNAMIC_EXPAND cfg then
          if node = 0 then
            let new_size0 = ZT cfg (max_nodes (lst s1) * 2) in
            if new_size0 \<le> max_nodes (lst s1) then
              if max_nodes (lst s1) = ZT_MAX cfg then Some (0, s1)
              else zerolist_alloc_retry cfg s1 node idx (ZT_MAX cfg)
            else zerolist_alloc_retry cfg s1 node idx new_size0
          else Some (init_static_node cfg s1 node idx)
        else if STATIC_FALLBACK_MALLOC cfg then
          if node = 0 then
            let (node2, s2) = ZEROLIST_MALLOC s1 in
            if node2 = 0 then Some (0, s2)
            else
              let s3 = wr_prev s2 node2 node2;
                  s4 = wr_next s3 node2 node2;
                  s5 = NODE_SET_IN_USE_SIMPLE cfg s4 node2;
                  s6 = wr_data s5 node2 0
              in Some (node2, s6)
          else Some (init_static_node cfg s1 node idx)
        else
          if node = 0 then Some (0, s1)
          else Some (init_static_node cfg s1 node idx))"

section \<open>Insertion\<close>

definition size_inc :: "config \<Rightarrow> state \<Rightarrow> state" where
  "size_inc cfg s =
     (if SIZE_ENABLE cfg then s\<lparr>lst := (lst s)\<lparr>size_l := ZT cfg (size_l (lst s) + 1)\<rparr>\<rparr> else s)"

definition zerolist_insert_internal ::
    "config \<Rightarrow> state \<Rightarrow> addr \<Rightarrow> addr \<Rightarrow> bool \<Rightarrow> (bool \<times> state) option" where
  "zerolist_insert_internal cfg s pos0 d before_pos =
     (let expand = STATIC_DYNAMIC_EXPAND cfg \<and> \<not> USE_MALLOC cfg;
          pos_idx_valid = (expand \<and> pos0 \<noteq> 0 \<and> zerolist_is_static_node cfg s pos0);
          pos_idx = (if pos_idx_valid then ptr_index cfg pos0 (node_buf (lst s)) else 0)
      in do {
        (node, s1) \<leftarrow> zerolist_alloc_node cfg s;
        if node = 0 then Some (False, s1)
        else
          let s2 = wr_data s1 node d;
              pos1 = (if expand \<and> pos0 \<noteq> 0 \<and> pos_idx_valid
                         \<and> \<not> zerolist_is_static_node cfg s2 pos0
                      then slot cfg s2 pos_idx else pos0)
          in if head (lst s2) = 0 then
               let s3 = s2\<lparr>lst := (lst s2)\<lparr>head := node\<rparr>\<rparr>;
                   s4 = wr_prev s3 node node;
                   s5 = wr_next s4 node node
               in Some (True, if SIZE_ENABLE cfg then s5\<lparr>lst := (lst s5)\<lparr>size_l := 1\<rparr>\<rparr> else s5)
             else
               let pos = (if pos1 = 0
                          then (if before_pos then head (lst s2) else prev (mem s2 (head (lst s2))))
                          else pos1)
               in if before_pos then
                    let s3 = wr_prev s2 node (prev (mem s2 pos));
                        s4 = wr_next s3 node pos;
                        s5 = wr_next s4 (prev (mem s4 pos)) node;
                        s6 = wr_prev s5 pos node;
                        s7 = (if pos = head (lst s6) then s6\<lparr>lst := (lst s6)\<lparr>head := node\<rparr>\<rparr> else s6)
                    in Some (True, size_inc cfg s7)
                  else
                    let s3 = wr_next s2 node (next (mem s2 pos));
                        s4 = wr_prev s3 node pos;
                        s5 = wr_prev s4 (next (mem s4 pos)) node;
                        s6 = wr_next s5 pos node
                    in Some (True, size_inc cfg s6)
      })"

definition zerolist_push_front :: "config \<Rightarrow> state \<Rightarrow> addr \<Rightarrow> (bool \<times> state) option" where
  "zerolist_push_front cfg s d = zerolist_insert_internal cfg s (head (lst s)) d True"

definition zerolist_push_back :: "config \<Rightarrow> state \<Rightarrow> addr \<Rightarrow> (bool \<times> state) option" where
  "zerolist_push_back cfg s d = zerolist_insert_internal cfg s 0 d False"

partial_function (option) zerolist_insert_before_loop ::
    "config \<Rightarrow> state \<Rightarrow> addr \<Rightarrow> addr \<Rightarrow> addr \<Rightarrow> (bool \<times> state) option" where
  "zerolist_insert_before_loop cfg s target_data new_data cur =
     (if data (mem s cur) = target_data
      then zerolist_insert_internal cfg s cur new_data True
      else
        let cur' = next (mem s cur)
        in if cur' \<noteq> head (lst s)
           then zerolist_insert_before_loop cfg s target_data new_data cur'
           else Some (False, s))"

definition zerolist_insert_before ::
    "config \<Rightarrow> state \<Rightarrow> addr \<Rightarrow> addr \<Rightarrow> (bool \<times> state) option" where
  "zerolist_insert_before cfg s target_data new_data =
     (if head (lst s) = 0 then Some (False, s)
      else zerolist_insert_before_loop cfg s target_data new_data (head (lst s)))"

section \<open>Removal\<close>

definition zerolist_detach_node :: "state \<Rightarrow> addr \<Rightarrow> state" where
  "zerolist_detach_node s cur =
     (if cur = 0 then s
      else if next (mem s cur) = cur then s\<lparr>lst := (lst s)\<lparr>head := 0\<rparr>\<rparr>
      else if prev (mem s cur) = 0 \<or> next (mem s cur) = 0 then
        (if cur = head (lst s) then s\<lparr>lst := (lst s)\<lparr>head := 0\<rparr>\<rparr> else s)
      else
        let s1 = wr_next s (prev (mem s cur)) (next (mem s cur));
            s2 = wr_prev s1 (next (mem s1 cur)) (prev (mem s1 cur))
        in if cur = head (lst s2) then s2\<lparr>lst := (lst s2)\<lparr>head := next (mem s2 cur)\<rparr>\<rparr>
           else s2)"

definition zerolist_pop_front :: "config \<Rightarrow> state \<Rightarrow> addr \<times> state" where
  "zerolist_pop_front cfg s =
     (if head (lst s) = 0 then (0, s)
      else
        let node = head (lst s);
            d = data (mem s node);
            s1 = size_dec cfg s;
            s2 = zerolist_detach_node s1 node;
            s3 = zerolist_free_node cfg s2 node
        in (d, s3))"

definition zerolist_pop_back :: "config \<Rightarrow> state \<Rightarrow> addr \<times> state" where
  "zerolist_pop_back cfg s =
     (if head (lst s) = 0 then (0, s)
      else
        let node = prev (mem s (head (lst s)));
            d = data (mem s node);
            s1 = size_dec cfg s;
            s2 = zerolist_detach_node s1 node;
            s3 = zerolist_free_node cfg s2 node
        in (d, s3))"

text \<open>
  The walk of \<^verbatim>\<open>zerolist_pop_at\<close> and \<^verbatim>\<open>zerolist_remove_at\<close>: \<^verbatim>\<open>index\<close> steps along
  \<^verbatim>\<open>next\<close>; \<open>None\<close> when a step comes back to the head.
\<close>

fun walk_index :: "state \<Rightarrow> addr \<Rightarrow> nat \<Rightarrow> addr option" where
  "walk_index s cur 0 = Some cur"
| "walk_index s cur (Suc n) =
     (let cur' = next (mem s cur)
      in if cur' = head (lst s) then None else walk_index s cur' n)"

definition zerolist_pop_at :: "config \<Rightarrow> state \<Rightarrow> nat \<Rightarrow> addr \<times> state" where
  "zerolist_pop_at cfg s ix =
     (if head (lst s) = 0 then (0, s)
      else if SIZE_ENABLE cfg \<and> ix \<ge> size_l (lst s) then (0, s)
      else
        case walk_index s (head (lst s)) ix of
          None \<Rightarrow> (0, s)
        | Some cur \<Rightarrow>
            let d = data (mem s cur);
                s1 = zerolist_detach_node s cur;
                s2 = size_dec cfg s1;
                s3 = zerolist_free_node cfg s2 cur
            in (d, s3))"

definition zerolist_remove_at :: "config \<Rightarrow> state \<Rightarrow> nat \<Rightarrow> bool \<times> state" where
  "zerolist_remove_at cfg s ix =
     (if head (lst s) = 0 then (False, s)
      else if SIZE_ENABLE cfg \<and> ix \<ge> size_l (lst s) then (False, s)
      else
        case walk_index s (head (lst s)) ix of
          None \<Rightarrow> (False, s)
        | Some cur \<Rightarrow>
            let s1 = zerolist_detach_node s cur;
                s2 = zerolist_free_node cfg s1 cur;
                s3 = size_dec cfg s2
            in (True, s3))"

text \<open>
  \<^verbatim>\<open>zerolist_remove_ptr\<close> and \<^verbatim>\<open>zerolist_remove_if\<close> run the same two loops and differ in
  the test of a payload only, which is the argument \<open>P\<close> here: the scan of the slots of a
  pure arena, and the walk of the ring otherwise.
\<close>

definition remove_node :: "config \<Rightarrow> state \<Rightarrow> addr \<Rightarrow> state" where
  "remove_node cfg s node =
     (let s1 = zerolist_detach_node s node;
          s2 = zerolist_free_node cfg s1 node
      in size_dec cfg s2)"

definition remove_scan :: "config \<Rightarrow> state \<Rightarrow> (addr \<Rightarrow> bool) \<Rightarrow> bool \<times> state" where
  "remove_scan cfg s P =
     (case find (\<lambda>i. NODE_IS_IN_USE s (slot cfg s i) \<and> P (data (mem s (slot cfg s i))))
             [0..<max_nodes (lst s)] of
        Some i \<Rightarrow> (True, remove_node cfg s (slot cfg s i))
      | None \<Rightarrow> (False, s))"

partial_function (option) remove_walk ::
    "config \<Rightarrow> state \<Rightarrow> (addr \<Rightarrow> bool) \<Rightarrow> addr \<Rightarrow> addr \<Rightarrow> (bool \<times> state) option" where
  "remove_walk cfg s P start cur =
     (if P (data (mem s cur)) then Some (True, remove_node cfg s cur)
      else
        let cur' = next (mem s cur)
        in if cur' = 0 then Some (False, s)
           else if cur' \<noteq> start then remove_walk cfg s P start cur'
           else Some (False, s))"

definition zerolist_remove_ptr :: "config \<Rightarrow> state \<Rightarrow> addr \<Rightarrow> (bool \<times> state) option" where
  "zerolist_remove_ptr cfg s d =
     (if d = 0 then Some (False, s)
      else if \<not> USE_MALLOC cfg \<and> \<not> STATIC_FALLBACK_MALLOC cfg
      then Some (remove_scan cfg s (\<lambda>x. x = d))
      else if head (lst s) = 0 then Some (False, s)
      else remove_walk cfg s (\<lambda>x. x = d) (head (lst s)) (head (lst s)))"

definition zerolist_remove_if ::
    "config \<Rightarrow> state \<Rightarrow> addr \<Rightarrow> (addr \<Rightarrow> addr \<Rightarrow> bool) option \<Rightarrow> (bool \<times> state) option" where
  "zerolist_remove_if cfg s d cmp_func =
     (case cmp_func of
        None \<Rightarrow> Some (False, s)
      | Some cmp \<Rightarrow>
          if \<not> USE_MALLOC cfg \<and> \<not> STATIC_FALLBACK_MALLOC cfg
          then Some (remove_scan cfg s (\<lambda>x. cmp x d))
          else if head (lst s) = 0 then Some (False, s)
          else remove_walk cfg s (\<lambda>x. cmp x d) (head (lst s)) (head (lst s)))"

section \<open>Traversal\<close>

text \<open>
  \<^verbatim>\<open>zerolist_foreach\<close> returns the payloads handed to the callback, in order; the macro
  \<^verbatim>\<open>ZEROLIST_FOR_EACH\<close> returns the nodes its body is run on.
\<close>

partial_function (option) zerolist_foreach_loop ::
    "state \<Rightarrow> addr \<Rightarrow> addr \<Rightarrow> addr list \<Rightarrow> addr list option" where
  "zerolist_foreach_loop s start cur acc =
     (let acc' = acc @ [data (mem s cur)];
          cur' = next (mem s cur)
      in if cur' = 0 then Some acc'
         else if cur' \<noteq> start then zerolist_foreach_loop s start cur' acc'
         else Some acc')"

definition zerolist_foreach :: "config \<Rightarrow> state \<Rightarrow> addr list option" where
  "zerolist_foreach cfg s =
     (if \<not> USE_MALLOC cfg \<and> \<not> STATIC_FALLBACK_MALLOC cfg then
        Some (map (\<lambda>i. data (mem s (slot cfg s i)))
               (filter (\<lambda>i. NODE_IS_IN_USE s (slot cfg s i)) [0..<max_nodes (lst s)]))
      else if head (lst s) = 0 then Some []
      else zerolist_foreach_loop s (head (lst s)) (head (lst s)) [])"

partial_function (option) ZEROLIST_FOR_EACH_loop ::
    "state \<Rightarrow> addr \<Rightarrow> addr \<Rightarrow> addr list \<Rightarrow> addr list option" where
  "ZEROLIST_FOR_EACH_loop s first node_var acc =
     (if node_var = 0 then Some acc
      else ZEROLIST_FOR_EACH_loop s first
             (if next (mem s node_var) = first then 0 else next (mem s node_var))
             (acc @ [node_var]))"

definition ZEROLIST_FOR_EACH :: "state \<Rightarrow> addr list option" where
  "ZEROLIST_FOR_EACH s =
     (if head (lst s) \<noteq> 0 then ZEROLIST_FOR_EACH_loop s (head (lst s)) (head (lst s)) []
      else Some [])"

section \<open>Reversal, clearing, destruction\<close>

partial_function (option) zerolist_reverse_loop :: "state \<Rightarrow> addr \<Rightarrow> state option" where
  "zerolist_reverse_loop s cur =
     (let tmp = next (mem s cur);
          s1 = wr_next s cur (prev (mem s cur));
          s2 = wr_prev s1 cur tmp
      in if tmp \<noteq> head (lst s2) then zerolist_reverse_loop s2 tmp else Some s2)"

definition zerolist_reverse :: "state \<Rightarrow> state option" where
  "zerolist_reverse s =
     (if head (lst s) = 0 then Some s
      else if next (mem s (head (lst s))) = head (lst s) then Some s
      else
        let old_tail = prev (mem s (head (lst s)))
        in do {
          s1 \<leftarrow> zerolist_reverse_loop s (head (lst s));
          Some (s1\<lparr>lst := (lst s1)\<lparr>head := old_tail\<rparr>\<rparr>)
        })"

definition clear_slot :: "config \<Rightarrow> nat \<Rightarrow> state \<Rightarrow> state" where
  "clear_slot cfg i s =
     (let node = slot cfg s i;
          s1 = NODE_SET_FREE cfg s node;
          s2 = wr_prev s1 node node;
          s3 = wr_next s2 node node
      in wr_data s3 node 0)"

partial_function (option) zerolist_clear_loop :: "config \<Rightarrow> state \<Rightarrow> addr \<Rightarrow> state option" where
  "zerolist_clear_loop cfg s cur =
     (if cur = 0 then Some s
      else
        let nxt = next (mem s cur);
            s1 = zerolist_free_node cfg s cur
        in zerolist_clear_loop cfg s1 (if nxt = head (lst s1) then 0 else nxt))"

definition zerolist_clear :: "config \<Rightarrow> state \<Rightarrow> state option" where
  "zerolist_clear cfg s = do {
     s1 \<leftarrow> (if \<not> USE_MALLOC cfg \<and> \<not> STATIC_FALLBACK_MALLOC cfg
            then Some (fold (clear_slot cfg) [0..<max_nodes (lst s)] s)
            else zerolist_clear_loop cfg s (head (lst s)));
     let s2 = s1\<lparr>lst := (lst s1)\<lparr>head := 0\<rparr>\<rparr> in
     Some (if SIZE_ENABLE cfg then s2\<lparr>lst := (lst s2)\<lparr>size_l := 0\<rparr>\<rparr> else s2)
   }"

definition zerolist_destroy :: "config \<Rightarrow> state \<Rightarrow> state option" where
  "zerolist_destroy cfg s = do {
     s1 \<leftarrow> zerolist_clear cfg s;
     if USE_MALLOC cfg then Some s1
     else if STATIC_DYNAMIC_EXPAND cfg then
       let s2 = (if node_buf (lst s1) \<noteq> 0
                 then (ZEROLIST_FREE s1 (node_buf (lst s1)))\<lparr>lst := (lst s1)\<lparr>node_buf := 0\<rparr>\<rparr>
                 else s1);
           s3 = (if FAST_ALLOC cfg \<and> free_stack (lst s2) \<noteq> 0
                 then (ZEROLIST_FREE s2 (free_stack (lst s2)))\<lparr>lst := (lst s2)\<lparr>free_stack := 0\<rparr>\<rparr>
                 else s2);
           s4 = s3\<lparr>lst := (lst s3)\<lparr>max_nodes := 0, head := 0\<rparr>\<rparr>
       in Some (if SIZE_ENABLE cfg then s4\<lparr>lst := (lst s4)\<lparr>size_l := 0\<rparr>\<rparr> else s4)
     else if FAST_ALLOC cfg \<and> free_stack (lst s1) \<noteq> 0
       then Some (s1\<lparr>lst := (lst s1)\<lparr>free_top := 0\<rparr>\<rparr>)
     else Some s1
   }"

definition zerolist_reinit :: "config \<Rightarrow> state \<Rightarrow> nat \<Rightarrow> bool \<times> state" where
  "zerolist_reinit cfg s initial_size =
     (if USE_MALLOC cfg then list_init_dynamic s
      else if STATIC_DYNAMIC_EXPAND cfg then
        if initial_size = 0 then (False, s) else list_init_dynamic_expand cfg s initial_size
      else if node_buf (lst s) = 0 \<or> max_nodes (lst s) = 0 then (False, s)
      else
        let l1 = (lst s)\<lparr>head := 0, tail := 0\<rparr>;
            s1 = s\<lparr>lst := (if SIZE_ENABLE cfg then l1\<lparr>size_l := 0\<rparr> else l1)\<rparr>
        in if FAST_ALLOC cfg then
             if free_stack (lst s1) \<noteq> 0 then
               (True, fold (expand_slot_fast cfg) [0..<max_nodes (lst s1)]
                        (s1\<lparr>lst := (lst s1)\<lparr>free_top := 0\<rparr>\<rparr>))
             else (True, s1)
           else (True, fold (expand_slot cfg) [0..<max_nodes (lst s1)] s1))"

section \<open>Well-formed rings\<close>

text \<open>
  \<open>ring s ns\<close>: the nodes of the list of state \<open>s\<close> are the addresses \<open>ns\<close>, in the order
  of \<^verbatim>\<open>next\<close> from the head; \<^verbatim>\<open>next\<close> maps each of them to its successor in \<open>ns\<close> taken
  cyclically and \<^verbatim>\<open>prev\<close> maps the successor back. The empty list has \<open>ns = []\<close>.
\<close>

definition ring :: "state \<Rightarrow> addr list \<Rightarrow> bool" where
  "ring s ns \<longleftrightarrow>
     (if head (lst s) = 0 then ns = []
      else ns \<noteq> [] \<and> hd ns = head (lst s) \<and> distinct ns \<and> 0 \<notin> set ns \<and>
           map (\<lambda>a. next (mem s a)) ns = rotate1 ns \<and>
           map (\<lambda>a. prev (mem s a)) (rotate1 ns) = ns)"

text \<open>The payloads of the nodes \<open>ns\<close>.\<close>

definition payloads :: "state \<Rightarrow> addr list \<Rightarrow> addr list" where
  "payloads s ns = map (\<lambda>a. data (mem s a)) ns"

text \<open>\<open>k\<close> acquisitions in a row: the nodes returned, in order, and the final state.\<close>

fun alloc_many :: "config \<Rightarrow> state \<Rightarrow> nat \<Rightarrow> (addr list \<times> state) option" where
  "alloc_many cfg s 0 = Some ([], s)"
| "alloc_many cfg s (Suc k) = do {
     (a, s1) \<leftarrow> zerolist_alloc_node cfg s;
     (as, s2) \<leftarrow> alloc_many cfg s1 k;
     Some (a # as, s2)
   }"

section \<open>The effect of reversal\<close>

text \<open>
  A node with its two links exchanged, and the state in which this has been done to the
  nodes \<open>ns\<close>: what the loop of \<^verbatim>\<open>zerolist_reverse\<close> has made of the memory once it has
  visited \<open>ns\<close>.
\<close>

definition swap_links :: "node \<Rightarrow> node" where
  "swap_links nd = nd\<lparr>next := prev nd, prev := next nd\<rparr>"

definition reversed :: "state \<Rightarrow> addr list \<Rightarrow> state" where
  "reversed s ns = s\<lparr>mem := (\<lambda>a. if a \<in> set ns then swap_links (mem s a) else mem s a)\<rparr>"

section \<open>The effect of rebasing\<close>

text \<open>
  \<open>rebase_ptr\<close> is the translation that \<^verbatim>\<open>_zerolist_update_node_pointers\<close> applies to a link
  that needs no clamping: the node of the new buffer with the index the link has in the old
  one. \<open>rebased cfg s old_buf new_buf xs\<close> is the state \<open>s\<close> in which the two links of the
  nodes \<open>xs\<close> have been translated: what the loop has made of the memory once it has
  visited \<open>xs\<close>.
\<close>

definition rebase_ptr :: "config \<Rightarrow> addr \<Rightarrow> addr \<Rightarrow> addr \<Rightarrow> addr" where
  "rebase_ptr cfg old_buf new_buf p = new_buf + ptr_index cfg p old_buf * NODE_SIZE cfg"

definition rebased :: "config \<Rightarrow> state \<Rightarrow> addr \<Rightarrow> addr \<Rightarrow> addr list \<Rightarrow> state" where
  "rebased cfg s old_buf new_buf xs =
     s\<lparr>mem := (\<lambda>x. if x \<in> set xs
                    then (mem s x)\<lparr>prev := rebase_ptr cfg old_buf new_buf (prev (mem s x)),
                                   next := rebase_ptr cfg old_buf new_buf (next (mem s x))\<rparr>
                    else mem s x)\<rparr>"

text \<open>The addresses of the slots \<open>is\<close> in the buffer at \<open>b\<close>.\<close>

definition slots_at :: "config \<Rightarrow> addr \<Rightarrow> nat list \<Rightarrow> addr list" where
  "slots_at cfg b is = map (\<lambda>i. b + i * NODE_SIZE cfg) is"

section \<open>Invariants\<close>

text \<open>
  \<open>cyc f g xs\<close>: \<open>f\<close> maps each element of \<open>xs\<close> to the next one, cyclically, and \<open>g\<close>
  maps it back. \<open>cycle s xs\<close>: the nodes \<open>xs\<close> are linked into a ring in this order by
  \<^verbatim>\<open>next\<close> and \<^verbatim>\<open>prev\<close>, whichever of them is the head.
\<close>

definition cyc :: "(addr \<Rightarrow> addr) \<Rightarrow> (addr \<Rightarrow> addr) \<Rightarrow> addr list \<Rightarrow> bool" where
  "cyc f g xs \<longleftrightarrow>
     xs \<noteq> [] \<and> distinct xs \<and> 0 \<notin> set xs \<and> map f xs = rotate1 xs \<and> map g (rotate1 xs) = xs"

definition cycle :: "state \<Rightarrow> addr list \<Rightarrow> bool" where
  "cycle s xs = cyc (\<lambda>a. next (mem s a)) (\<lambda>a. prev (mem s a)) xs"

text \<open>
  Following \<^verbatim>\<open>next\<close>, or \<^verbatim>\<open>prev\<close>, \<open>k\<close> times from a node, and the ring-closure property of
  a state: \<^verbatim>\<open>size\<close> steps from the head, in either direction, end at the head.
\<close>

definition follow_next :: "state \<Rightarrow> nat \<Rightarrow> addr \<Rightarrow> addr" where
  "follow_next s k a = ((\<lambda>x. next (mem s x)) ^^ k) a"

definition follow_prev :: "state \<Rightarrow> nat \<Rightarrow> addr \<Rightarrow> addr" where
  "follow_prev s k a = ((\<lambda>x. prev (mem s x)) ^^ k) a"

definition ring_closed :: "state \<Rightarrow> bool" where
  "ring_closed s \<longleftrightarrow>
     follow_next s (size_l (lst s)) (head (lst s)) = head (lst s) \<and>
     follow_prev s (size_l (lst s)) (head (lst s)) = head (lst s)"

text \<open>
  The arena of a state and a list \<open>L\<close> of live nodes: the arena exists and its capacity fits
  the index type; a slot is in use exactly when it is a live node; every live node is a
  slot of the arena or, with the heap fallback, lies outside the address range of the
  arena.
\<close>

definition live_ok :: "config \<Rightarrow> state \<Rightarrow> addr list \<Rightarrow> bool" where
  "live_ok cfg s L \<longleftrightarrow>
     node_buf (lst s) \<noteq> 0 \<and> 0 < max_nodes (lst s) \<and> max_nodes (lst s) \<le> ZT_MAX cfg \<and>
     (\<forall>i < max_nodes (lst s). in_use (mem s (slot cfg s i)) \<longleftrightarrow> slot cfg s i \<in> set L) \<and>
     (\<forall>a \<in> set L.
        (\<exists>i < max_nodes (lst s). a = slot cfg s i) \<or>
        (STATIC_FALLBACK_MALLOC cfg \<and>
         \<not> (node_buf (lst s) \<le> a \<and>
            a < node_buf (lst s) + max_nodes (lst s) * NODE_SIZE cfg)))"

text \<open>
  The free stack of a state: its entries below \<^verbatim>\<open>free_top\<close> are pairwise different and are
  exactly the indices of the slots that are not in use.
\<close>

definition stack_ok :: "config \<Rightarrow> state \<Rightarrow> bool" where
  "stack_ok cfg s \<longleftrightarrow>
     free_stack (lst s) \<noteq> 0 \<and> free_top (lst s) \<le> max_nodes (lst s) \<and>
     distinct (map (stk s) [0..<free_top (lst s)]) \<and>
     set (map (stk s) [0..<free_top (lst s)]) =
       set (filter (\<lambda>i. \<not> in_use (mem s (slot cfg s i))) [0..<max_nodes (lst s)])"

text \<open>
  A well-formed list with the nodes \<open>ns\<close>, from the head on: the nodes form the ring, the
  counter is their number as far as \<^verbatim>\<open>ZEROLIST_TYPE\<close> can hold it, and, unless every
  node comes from the heap, the arena and the free stack agree with the ring.
\<close>

definition wf :: "config \<Rightarrow> state \<Rightarrow> addr list \<Rightarrow> bool" where
  "wf cfg s ns \<longleftrightarrow>
     valid_config cfg \<and> ring s ns \<and>
     (SIZE_ENABLE cfg \<longrightarrow> size_l (lst s) = ZT cfg (length ns)) \<and>
     (\<not> USE_MALLOC cfg \<longrightarrow> live_ok cfg s ns \<and> (FAST_ALLOC cfg \<longrightarrow> stack_ok cfg s))"

text \<open>
  The invariant of the free stack as the documentation states it: \<^verbatim>\<open>free_top\<close> and the
  number of slots in use add up to the capacity, and a slot is in use exactly when it is
  not on the stack.
\<close>

definition free_stack_inv :: "config \<Rightarrow> state \<Rightarrow> bool" where
  "free_stack_inv cfg s \<longleftrightarrow>
     free_top (lst s) +
       length (filter (\<lambda>i. in_use (mem s (slot cfg s i))) [0..<max_nodes (lst s)])
       = max_nodes (lst s) \<and>
     (\<forall>i < max_nodes (lst s).
        in_use (mem s (slot cfg s i)) \<longleftrightarrow> i \<notin> set (map (stk s) [0..<free_top (lst s)]))"

text \<open>
  What is assumed of the allocator at the next request, if the operation makes one. The
  size \<^verbatim>\<open>_zerolist_alloc_node\<close> asks for when the growable arena is exhausted is
  \<open>grow_request\<close>. \<^verbatim>\<open>malloc\<close> answers with \<^verbatim>\<open>NULL\<close> or with a block that is not a live node
  and, with the heap fallback, lies outside the arena. \<^verbatim>\<open>realloc\<close> of the arena answers with
  \<^verbatim>\<open>NULL\<close>, with the old address, or with a block that does not overlap the old one; in
  the last case, if it then refuses to resize the free stack, it does not also refuse to
  give the arena its old size back.
\<close>

definition grow_request :: "config \<Rightarrow> state \<Rightarrow> nat" where
  "grow_request cfg s =
     (let new_size = ZT cfg (max_nodes (lst s) * 2)
      in if new_size \<le> max_nodes (lst s) then ZT_MAX cfg else new_size)"

definition fresh_block :: "config \<Rightarrow> state \<Rightarrow> addr list \<Rightarrow> addr \<Rightarrow> bool" where
  "fresh_block cfg s ns a \<longleftrightarrow>
     a \<notin> set ns \<and>
     (STATIC_FALLBACK_MALLOC cfg \<longrightarrow>
        \<not> (node_buf (lst s) \<le> a \<and>
           a < node_buf (lst s) + max_nodes (lst s) * NODE_SIZE cfg))"

definition apart :: "config \<Rightarrow> state \<Rightarrow> addr \<Rightarrow> bool" where
  "apart cfg s a \<longleftrightarrow>
     a + grow_request cfg s * NODE_SIZE cfg \<le> node_buf (lst s) \<or>
     node_buf (lst s) + max_nodes (lst s) * NODE_SIZE cfg \<le> a"

definition alloc_ok :: "config \<Rightarrow> state \<Rightarrow> addr list \<Rightarrow> bool" where
  "alloc_ok cfg s ns \<longleftrightarrow>
     (case env s of
        [] \<Rightarrow> True
      | a # rest \<Rightarrow>
          a = 0 \<or>
          (if STATIC_DYNAMIC_EXPAND cfg then
             a = node_buf (lst s) \<or>
             (apart cfg s a \<and>
              (FAST_ALLOC cfg \<longrightarrow>
                 (case rest of
                    [] \<Rightarrow> False
                  | b # rest' \<Rightarrow> b \<noteq> 0 \<or> (case rest' of [] \<Rightarrow> False | c # _ \<Rightarrow> c \<noteq> 0))))
           else fresh_block cfg s ns a))"

text \<open>
  \<open>took cfg t L node s'\<close>: from the state \<open>t\<close> with the live nodes \<open>L\<close>, the node \<open>node\<close> has been
  acquired and is not linked into the ring yet; \<open>s'\<close> is the state then. Nothing but the
  node itself, the free stack and the allocator has changed.
\<close>

definition took :: "config \<Rightarrow> state \<Rightarrow> addr list \<Rightarrow> addr \<Rightarrow> state \<Rightarrow> bool" where
  "took cfg t L node s' \<longleftrightarrow>
     node \<noteq> 0 \<and> node \<notin> set L \<and>
     head (lst s') = head (lst t) \<and> size_l (lst s') = size_l (lst t) \<and>
     (\<forall>a. a \<noteq> node \<longrightarrow> mem s' a = mem t a) \<and>
     (\<not> USE_MALLOC cfg \<longrightarrow> live_ok cfg s' (node # L) \<and> (FAST_ALLOC cfg \<longrightarrow> stack_ok cfg s'))"

text \<open>
  The part of \<^verbatim>\<open>_zerolist_insert_internal\<close> after the node has been acquired and its payload
  stored: the node is linked at \<open>pos1\<close>, the position after its correction.
\<close>

definition link_node :: "config \<Rightarrow> state \<Rightarrow> addr \<Rightarrow> addr \<Rightarrow> bool \<Rightarrow> state" where
  "link_node cfg s2 node pos1 before_pos =
     (if head (lst s2) = 0 then
        let s3 = s2\<lparr>lst := (lst s2)\<lparr>head := node\<rparr>\<rparr>;
            s4 = wr_prev s3 node node;
            s5 = wr_next s4 node node
        in (if SIZE_ENABLE cfg then s5\<lparr>lst := (lst s5)\<lparr>size_l := 1\<rparr>\<rparr> else s5)
      else
        let pos = (if pos1 = 0
                   then (if before_pos then head (lst s2) else prev (mem s2 (head (lst s2))))
                   else pos1)
        in if before_pos then
             let s3 = wr_prev s2 node (prev (mem s2 pos));
                 s4 = wr_next s3 node pos;
                 s5 = wr_next s4 (prev (mem s4 pos)) node;
                 s6 = wr_prev s5 pos node;
                 s7 = (if pos = head (lst s6) then s6\<lparr>lst := (lst s6)\<lparr>head := node\<rparr>\<rparr> else s6)
             in size_inc cfg s7
           else
             let s3 = wr_next s2 node (next (mem s2 pos));
                 s4 = wr_prev s3 node pos;
                 s5 = wr_prev s4 (next (mem s4 pos)) node;
                 s6 = wr_next s5 pos node
             in size_inc cfg s6)"

text \<open>The position \<^verbatim>\<open>_zerolist_insert_internal\<close> links at, after its correction.\<close>

definition fixed_pos :: "config \<Rightarrow> state \<Rightarrow> state \<Rightarrow> addr \<Rightarrow> addr" where
  "fixed_pos cfg s s2 pos0 =
     (let expand = STATIC_DYNAMIC_EXPAND cfg \<and> \<not> USE_MALLOC cfg;
          pos_idx_valid = (expand \<and> pos0 \<noteq> 0 \<and> zerolist_is_static_node cfg s pos0);
          pos_idx = (if pos_idx_valid then ptr_index cfg pos0 (node_buf (lst s)) else 0)
      in if expand \<and> pos0 \<noteq> 0 \<and> pos_idx_valid \<and> \<not> zerolist_is_static_node cfg s2 pos0
         then slot cfg s2 pos_idx else pos0)"

text \<open>The operations that insert or remove one node, and their effect on the state.\<close>

datatype operation =
    Push_front addr
  | Push_back addr
  | Insert_before addr addr
  | Pop_front
  | Pop_back
  | Pop_at nat
  | Remove_at nat
  | Remove_ptr addr
  | Remove_if addr "(addr \<Rightarrow> addr \<Rightarrow> bool) option"

fun inserts :: "operation \<Rightarrow> bool" where
  "inserts (Push_front d) = True"
| "inserts (Push_back d) = True"
| "inserts (Insert_before t d) = True"
| "inserts _ = False"

fun run :: "config \<Rightarrow> state \<Rightarrow> operation \<Rightarrow> state option" where
  "run cfg s (Push_front d) = map_option snd (zerolist_push_front cfg s d)"
| "run cfg s (Push_back d) = map_option snd (zerolist_push_back cfg s d)"
| "run cfg s (Insert_before t d) = map_option snd (zerolist_insert_before cfg s t d)"
| "run cfg s Pop_front = Some (snd (zerolist_pop_front cfg s))"
| "run cfg s Pop_back = Some (snd (zerolist_pop_back cfg s))"
| "run cfg s (Pop_at ix) = Some (snd (zerolist_pop_at cfg s ix))"
| "run cfg s (Remove_at ix) = Some (snd (zerolist_remove_at cfg s ix))"
| "run cfg s (Remove_ptr d) = map_option snd (zerolist_remove_ptr cfg s d)"
| "run cfg s (Remove_if d cmp_func) = map_option snd (zerolist_remove_if cfg s d cmp_func)"

section \<open>Configurations and states used as examples\<close>

text \<open>
  The configuration of the header as shipped (growable arena with the free stack, 16-bit
  indices), the fixed arena with the free stack, with and without the heap fallback, and
  the heap-only configuration.
\<close>

definition cfg_growable :: config where
  "cfg_growable = \<lparr>USE_MALLOC = False, FAST_ALLOC = True, SIZE_ENABLE = True,
     STATIC_FALLBACK_MALLOC = False, STATIC_DYNAMIC_EXPAND = True,
     TYPE_BITS = 16, NODE_SIZE = 32\<rparr>"

definition cfg_fixed :: config where
  "cfg_fixed = \<lparr>USE_MALLOC = False, FAST_ALLOC = True, SIZE_ENABLE = True,
     STATIC_FALLBACK_MALLOC = False, STATIC_DYNAMIC_EXPAND = False,
     TYPE_BITS = 16, NODE_SIZE = 32\<rparr>"

definition cfg_fallback :: config where
  "cfg_fallback = \<lparr>USE_MALLOC = False, FAST_ALLOC = True, SIZE_ENABLE = True,
     STATIC_FALLBACK_MALLOC = True, STATIC_DYNAMIC_EXPAND = False,
     TYPE_BITS = 16, NODE_SIZE = 32\<rparr>"

definition cfg_malloc :: config where
  "cfg_malloc = \<lparr>USE_MALLOC = True, FAST_ALLOC = False, SIZE_ENABLE = True,
     STATIC_FALLBACK_MALLOC = False, STATIC_DYNAMIC_EXPAND = False,
     TYPE_BITS = 16, NODE_SIZE = 32\<rparr>"

text \<open>A node that is linked to itself, and a memory that holds such a node everywhere.\<close>

definition blank_node :: "addr \<Rightarrow> node" where
  "blank_node a = \<lparr>data = 0, prev = a, next = a, in_use = False, index = 0\<rparr>"

definition blank_state :: state where
  "blank_state =
     \<lparr>lst = \<lparr>size_l = 0, head = 0, tail = 0, node_buf = 0, max_nodes = 0,
              free_top = 0, free_stack = 0\<rparr>,
      mem = blank_node, stk = (\<lambda>_. 0), env = [], freed = []\<rparr>"

text \<open>An arena of four slots at address 1024, all of them taken: the free stack is empty.\<close>

definition full4_state :: state where
  "full4_state =
     blank_state\<lparr>lst := \<lparr>size_l = 4, head = 1024, tail = 0, node_buf = 1024, max_nodes = 4,
                         free_top = 0, free_stack = 8192\<rparr>\<rparr>"

text \<open>
  The state after \<^verbatim>\<open>zerolist_init_expand\<close> on an arena of four slots at address 1024 and
  three \<^verbatim>\<open>zerolist_push_back\<close> of the payloads 11, 22 and 33.
\<close>

definition abc_state :: state where
  "abc_state =
     \<lparr>lst = \<lparr>size_l = 3, head = 1024, tail = 0, node_buf = 1024, max_nodes = 4,
              free_top = 1, free_stack = 8192\<rparr>,
      mem = blank_node
        (1024 := \<lparr>data = 11, prev = 1088, next = 1056, in_use = True, index = 0\<rparr>,
         1056 := \<lparr>data = 22, prev = 1024, next = 1088, in_use = True, index = 1\<rparr>,
         1088 := \<lparr>data = 33, prev = 1056, next = 1024, in_use = True, index = 2\<rparr>,
         1120 := \<lparr>data = 0, prev = 1120, next = 1120, in_use = False, index = 3\<rparr>),
      stk = (\<lambda>i. if i < 4 then 3 - i else 0), env = [], freed = []\<rparr>"

text \<open>The fixed arena without the size counter.\<close>

definition cfg_nosize :: config where
  "cfg_nosize = \<lparr>USE_MALLOC = False, FAST_ALLOC = True, SIZE_ENABLE = False,
     STATIC_FALLBACK_MALLOC = False, STATIC_DYNAMIC_EXPAND = False,
     TYPE_BITS = 16, NODE_SIZE = 32\<rparr>"

text \<open>
  A fixed arena of two slots at address 1024 with the heap fallback, after initialisation
  (\<open>fb0\<close>), after pushing 11 and 22, which take the two slots (\<open>fb1\<close>, \<open>fb2\<close>), after
  pushing 33, whose node the allocator places at address 4096 (\<open>fb_state\<close>), after removing
  22 (\<open>fb_state_b\<close>) and after removing 33 (\<open>fb_state_c\<close>).
\<close>

definition fb0 :: state where
  "fb0 =
     \<lparr>lst = \<lparr>size_l = 0, head = 0, tail = 0, node_buf = 1024, max_nodes = 2,
              free_top = 2, free_stack = 8192\<rparr>,
      mem = blank_node
        (1024 := \<lparr>data = 0, prev = 1024, next = 1024, in_use = False, index = 0\<rparr>,
         1056 := \<lparr>data = 0, prev = 1056, next = 1056, in_use = False, index = 1\<rparr>),
      stk = (\<lambda>i. if i < 2 then 1 - i else 0), env = [4096], freed = []\<rparr>"

definition fb1 :: state where
  "fb1 =
     \<lparr>lst = \<lparr>size_l = 1, head = 1024, tail = 0, node_buf = 1024, max_nodes = 2,
              free_top = 1, free_stack = 8192\<rparr>,
      mem = blank_node
        (1024 := \<lparr>data = 11, prev = 1024, next = 1024, in_use = True, index = 0\<rparr>,
         1056 := \<lparr>data = 0, prev = 1056, next = 1056, in_use = False, index = 1\<rparr>),
      stk = (\<lambda>i. if i < 2 then 1 - i else 0), env = [4096], freed = []\<rparr>"

definition fb2 :: state where
  "fb2 =
     \<lparr>lst = \<lparr>size_l = 2, head = 1024, tail = 0, node_buf = 1024, max_nodes = 2,
              free_top = 0, free_stack = 8192\<rparr>,
      mem = blank_node
        (1024 := \<lparr>data = 11, prev = 1056, next = 1056, in_use = True, index = 0\<rparr>,
         1056 := \<lparr>data = 22, prev = 1024, next = 1024, in_use = True, index = 1\<rparr>),
      stk = (\<lambda>i. if i < 2 then 1 - i else 0), env = [4096], freed = []\<rparr>"

definition fb_state :: state where
  "fb_state =
     \<lparr>lst = \<lparr>size_l = 3, head = 1024, tail = 0, node_buf = 1024, max_nodes = 2,
              free_top = 0, free_stack = 8192\<rparr>,
      mem = blank_node
        (1024 := \<lparr>data = 11, prev = 4096, next = 1056, in_use = True, index = 0\<rparr>,
         1056 := \<lparr>data = 22, prev = 1024, next = 4096, in_use = True, index = 1\<rparr>,
         4096 := \<lparr>data = 33, prev = 1056, next = 1024, in_use = True, index = 0\<rparr>),
      stk = (\<lambda>i. if i < 2 then 1 - i else 0), env = [], freed = []\<rparr>"

definition fb_state_b :: state where
  "fb_state_b =
     \<lparr>lst = \<lparr>size_l = 2, head = 1024, tail = 0, node_buf = 1024, max_nodes = 2,
              free_top = 1, free_stack = 8192\<rparr>,
      mem = blank_node
        (1024 := \<lparr>data = 11, prev = 4096, next = 4096, in_use = True, index = 0\<rparr>,
         1056 := \<lparr>data = 0, prev = 1056, next = 1056, in_use = False, index = 0\<rparr>,
         4096 := \<lparr>data = 33, prev = 1024, next = 1024, in_use = True, index = 0\<rparr>),
      stk = (\<lambda>i. if i < 2 then 1 - i else 0), env = [], freed = []\<rparr>"

definition fb_state_c :: state where
  "fb_state_c =
     \<lparr>lst = \<lparr>size_l = 1, head = 1024, tail = 0, node_buf = 1024, max_nodes = 2,
              free_top = 1, free_stack = 8192\<rparr>,
      mem = blank_node
        (1024 := \<lparr>data = 11, prev = 1024, next = 1024, in_use = True, index = 0\<rparr>,
         1056 := \<lparr>data = 0, prev = 1056, next = 1056, in_use = False, index = 0\<rparr>,
         4096 := \<lparr>data = 33, prev = 1024, next = 1024, in_use = True, index = 0\<rparr>),
      stk = (\<lambda>i. if i < 2 then 1 - i else 0), env = [], freed = [4096]\<rparr>"

text \<open>
  A growable arena of 50000 slots at address 1024 in which 40000 nodes are live: the state
  after \<^verbatim>\<open>list_init_dynamic_expand\<close> with 50000 slots and 40000 \<^verbatim>\<open>zerolist_push_back\<close> of
  the payload 7. The allocator will answer the next two requests with 1024 (the node buffer
  stays where it is) and 4000000.
\<close>

definition crowded_state :: state where
  "crowded_state =
     \<lparr>lst = \<lparr>size_l = 40000, head = 1024, tail = 0, node_buf = 1024, max_nodes = 50000,
              free_top = 10000, free_stack = 4000000\<rparr>,
      mem = (\<lambda>a. if in_block cfg_growable 1024 50000 a then
                    let i = (a - 1024) div 32 in
                    if i < 40000 then
                      \<lparr>data = 7, prev = 1024 + ((i + 39999) mod 40000) * 32,
                         next = 1024 + ((i + 1) mod 40000) * 32,
                         in_use = True, index = i mod 32768\<rparr>
                    else \<lparr>data = 0, prev = a, next = a, in_use = False, index = i mod 32768\<rparr>
                  else blank_node a),
      stk = (\<lambda>j. if j < 50000 then 49999 - j else 0),
      env = [1024, 4000000], freed = []\<rparr>"

section \<open>Properties\<close>

subsection \<open>Arithmetic of the index type\<close>

lemma ZT_double_le:
  assumes "0 < m" "m \<le> ZT_MAX cfg"
  shows "ZT cfg (m * 2) \<le> m \<longleftrightarrow> 2 ^ TYPE_BITS cfg \<le> 2 * m"
proof (cases "2 * m < 2 ^ TYPE_BITS cfg")
  case True
  then show ?thesis using assms by (simp add: ZT_def mult.commute)
next
  case False
  have p: "(0::nat) < 2 ^ TYPE_BITS cfg" by simp
  from assms have m: "m < 2 ^ TYPE_BITS cfg" unfolding ZT_MAX_def using p by linarith
  from False have ge: "2 ^ TYPE_BITS cfg \<le> 2 * m" by simp
  have "(2 * m) mod 2 ^ TYPE_BITS cfg = 2 * m - 2 ^ TYPE_BITS cfg"
    using ge m by (simp add: mod_if le_mod_geq)
  then show ?thesis using ge m by (simp add: ZT_def mult.commute)
qed

subsection \<open>Growth request of the growable arena\<close>

lemma try_alloc_exhausted:
  assumes "node_buf (lst s) \<noteq> 0" "fst (ZEROLIST_TRY_ALLOC_STATIC cfg s 0 0) = 0"
  shows "ZEROLIST_TRY_ALLOC_STATIC cfg s 0 0 = (0, 0, s)"
  using assms
  by (auto simp: ZEROLIST_TRY_ALLOC_STATIC_def ZEROLIST_ALLOC_FROM_STACK_def
      ZEROLIST_ALLOC_FROM_SEARCH_def slot_def Let_def split: if_splits option.splits)

text \<open>
  Claim C5. In the growable configuration, on an initialised arena whose capacity is a
  value of the index type, when the arena has no free slot: if the capacity is the largest
  value of the index type, \<^verbatim>\<open>_zerolist_alloc_node\<close> returns \<^verbatim>\<open>NULL\<close> and leaves the state
  as it is (no request reaches the allocator); otherwise it goes on with the growth
  branch, and the size it hands to \<^verbatim>\<open>_zerolist_expand_buffer\<close> is twice the capacity,
  or the largest value of the index type when twice the capacity does not fit.
\<close>

theorem C5_growth_request:
  assumes "STATIC_DYNAMIC_EXPAND cfg" "\<not> USE_MALLOC cfg"
    and "node_buf (lst s) \<noteq> 0" "0 < max_nodes (lst s)" "max_nodes (lst s) \<le> ZT_MAX cfg"
    and "fst (ZEROLIST_TRY_ALLOC_STATIC cfg s 0 0) = 0"
  shows "zerolist_alloc_node cfg s =
           (if max_nodes (lst s) = ZT_MAX cfg then Some (0, s)
            else do {
              (ok, s2) \<leftarrow> zerolist_expand_buffer cfg s (min (2 * max_nodes (lst s)) (ZT_MAX cfg));
              if \<not> ok then Some (0, s2)
              else
                let (node2, idx2, s3) = ZEROLIST_TRY_ALLOC_STATIC cfg s2 0 0 in
                if node2 = 0 then Some (0, s3)
                else Some (init_static_node cfg s3 node2 idx2)
            })"
proof -
  have ex: "ZEROLIST_TRY_ALLOC_STATIC cfg s 0 0 = (0, 0, s)"
    using assms(3,6) by (rule try_alloc_exhausted)
  have dbl: "ZT cfg (max_nodes (lst s) * 2) \<le> max_nodes (lst s)
               \<longleftrightarrow> 2 ^ TYPE_BITS cfg \<le> 2 * max_nodes (lst s)"
    using assms(4,5) by (rule ZT_double_le)
  show ?thesis
  proof (cases "2 ^ TYPE_BITS cfg \<le> 2 * max_nodes (lst s)")
    case True
    then have "min (2 * max_nodes (lst s)) (ZT_MAX cfg) = ZT_MAX cfg"
      by (simp add: ZT_MAX_def)
    then show ?thesis using True assms(1-5) ex dbl
      by (simp add: zerolist_alloc_node_def zerolist_alloc_retry_def Let_def)
  next
    case False
    then have lt: "2 * max_nodes (lst s) < 2 ^ TYPE_BITS cfg" by simp
    then have m: "min (2 * max_nodes (lst s)) (ZT_MAX cfg) = 2 * max_nodes (lst s)"
      by (simp add: ZT_MAX_def)
    have z: "ZT cfg (max_nodes (lst s) * 2) = 2 * max_nodes (lst s)"
      using lt by (simp add: ZT_def mult.commute)
    have ne: "max_nodes (lst s) \<noteq> ZT_MAX cfg"
      using lt assms(4) by (auto simp: ZT_MAX_def)
    show ?thesis using False assms(1-5) ex dbl m z ne
      by (simp add: zerolist_alloc_node_def zerolist_alloc_retry_def Let_def)
  qed
qed

theorem C5_growth_request_witness:
  "STATIC_DYNAMIC_EXPAND cfg_growable \<and> \<not> USE_MALLOC cfg_growable \<and>
   node_buf (lst full4_state) \<noteq> 0 \<and> 0 < max_nodes (lst full4_state) \<and>
   max_nodes (lst full4_state) \<le> ZT_MAX cfg_growable \<and>
   fst (ZEROLIST_TRY_ALLOC_STATIC cfg_growable full4_state 0 0) = 0 \<and>
   zerolist_alloc_node cfg_growable full4_state = Some (0, full4_state)"
proof -
  have h: "STATIC_DYNAMIC_EXPAND cfg_growable" "\<not> USE_MALLOC cfg_growable"
    "node_buf (lst full4_state) \<noteq> 0" "0 < max_nodes (lst full4_state)"
    "max_nodes (lst full4_state) \<le> ZT_MAX cfg_growable"
    "fst (ZEROLIST_TRY_ALLOC_STATIC cfg_growable full4_state 0 0) = 0"
    by (simp_all add: cfg_growable_def full4_state_def blank_state_def ZT_MAX_def
        ZEROLIST_TRY_ALLOC_STATIC_def ZEROLIST_ALLOC_FROM_STACK_def)
  have e: "zerolist_expand_buffer cfg_growable full4_state 8 = Some (False, full4_state)"
    by (simp add: zerolist_expand_buffer_def ZEROLIST_REALLOC_nodes_def full4_state_def
        blank_state_def)
  have m: "min (2 * max_nodes (lst full4_state)) (ZT_MAX cfg_growable) = 8"
    and ne: "max_nodes (lst full4_state) \<noteq> ZT_MAX cfg_growable"
    by (simp_all add: cfg_growable_def full4_state_def blank_state_def ZT_MAX_def)
  show ?thesis
    using h C5_growth_request [OF h] e m ne by simp
qed

subsection \<open>Rings\<close>

lemma ring_empty: "head (lst s) = 0 \<Longrightarrow> ring s ns \<longleftrightarrow> ns = []"
  by (simp add: ring_def)

lemma ring_nonempty:
  assumes "ring s ns" "head (lst s) \<noteq> 0"
  shows "ns \<noteq> []" "hd ns = head (lst s)" "distinct ns" "0 \<notin> set ns"
    "map (\<lambda>a. next (mem s a)) ns = rotate1 ns"
    "map (\<lambda>a. prev (mem s a)) (rotate1 ns) = ns"
  using assms by (simp_all add: ring_def)

lemma ring_next_nth:
  assumes "ring s ns" "head (lst s) \<noteq> 0" "i < length ns"
  shows "next (mem s (ns ! i)) = ns ! (Suc i mod length ns)"
proof -
  have "map (\<lambda>a. next (mem s a)) ns ! i = rotate1 ns ! i"
    using ring_nonempty(5) [OF assms(1,2)] by simp
  then show ?thesis using assms(3) by (simp add: nth_rotate1)
qed

lemma ring_prev_nth:
  assumes "ring s ns" "head (lst s) \<noteq> 0" "i < length ns"
  shows "prev (mem s (ns ! (Suc i mod length ns))) = ns ! i"
proof -
  have "map (\<lambda>a. prev (mem s a)) (rotate1 ns) ! i = ns ! i"
    using ring_nonempty(6) [OF assms(1,2)] by simp
  then show ?thesis using assms(3) by (simp add: nth_rotate1)
qed

lemma ring_head_nth: "ring s ns \<Longrightarrow> head (lst s) \<noteq> 0 \<Longrightarrow> ns ! 0 = head (lst s)"
  by (auto simp: ring_def hd_conv_nth)

lemma walk_index_ring:
  assumes r: "ring s ns" and h: "head (lst s) \<noteq> 0"
  shows "j < length ns \<Longrightarrow>
         walk_index s (ns ! j) i = (if j + i < length ns then Some (ns ! (j + i)) else None)"
proof (induction i arbitrary: j)
  case 0
  then show ?case by simp
next
  case (Suc i)
  have nx: "next (mem s (ns ! j)) = ns ! (Suc j mod length ns)"
    using ring_next_nth [OF r h Suc.prems] .
  show ?case
  proof (cases "Suc j = length ns")
    case True
    then have "next (mem s (ns ! j)) = head (lst s)"
      using nx ring_head_nth [OF r h] by simp
    then show ?thesis using True by simp
  next
    case False
    then have lt: "Suc j < length ns" using Suc.prems by simp
    then have nx': "next (mem s (ns ! j)) = ns ! Suc j" using nx by simp
    have "0 < length ns" using lt by auto
    then have "ns ! Suc j \<noteq> ns ! 0"
      using ring_nonempty(3) [OF r h] lt nth_eq_iff_index_eq [of ns "Suc j" 0] by simp
    then have "next (mem s (ns ! j)) \<noteq> head (lst s)"
      using nx' ring_head_nth [OF r h] by simp
    then show ?thesis using nx' Suc.IH [OF lt] by simp
  qed
qed

lemma walk_index_head:
  assumes "ring s ns" "head (lst s) \<noteq> 0"
  shows "walk_index s (head (lst s)) i = (if i < length ns then Some (ns ! i) else None)"
proof -
  have "0 < length ns" using ring_nonempty(1) [OF assms] by simp
  from walk_index_ring [OF assms this, of i] show ?thesis
    using ring_head_nth [OF assms] by simp
qed

subsection \<open>Removal by identity of the null payload\<close>

text \<open>
  Claim C10. \<^verbatim>\<open>zerolist_remove_ptr(list, NULL)\<close> returns \<^verbatim>\<open>false\<close> and leaves the state as
  it is, in every configuration and for every list: the null payload is refused before any
  node is looked at, so a node whose payload is null is never removed by identity.
\<close>

theorem C10_remove_ptr_null: "zerolist_remove_ptr cfg s 0 = Some (False, s)"
  by (simp add: zerolist_remove_ptr_def)

subsection \<open>Rejected indices of \<^verbatim>\<open>zerolist_pop_at\<close>\<close>

text \<open>
  Claim C8. \<^verbatim>\<open>zerolist_pop_at\<close> returns \<^verbatim>\<open>NULL\<close> and leaves the state as it is: on the
  empty list; with the size counter, on a non-empty list when the index is not below the
  cached size; without the size counter, on a well-formed ring when the index is not below
  the number of nodes, and then because the walk comes back to the head before it has made
  \<^verbatim>\<open>index\<close> steps.
\<close>

theorem C8_pop_at_rejects:
  "(head (lst s) = 0 \<longrightarrow> zerolist_pop_at cfg s i = (0, s)) \<and>
   (SIZE_ENABLE cfg \<and> head (lst s) \<noteq> 0 \<and> size_l (lst s) \<le> i \<longrightarrow>
      zerolist_pop_at cfg s i = (0, s)) \<and>
   (\<not> SIZE_ENABLE cfg \<and> head (lst s) \<noteq> 0 \<and> ring s ns \<and> length ns \<le> i \<longrightarrow>
      walk_index s (head (lst s)) i = None \<and> zerolist_pop_at cfg s i = (0, s))"
  by (auto simp: zerolist_pop_at_def walk_index_head)

theorem C8_pop_at_rejects_witness:
  "head (lst blank_state) = 0 \<and> zerolist_pop_at cfg_growable blank_state 0 = (0, blank_state) \<and>
   SIZE_ENABLE cfg_growable \<and> head (lst abc_state) \<noteq> 0 \<and> size_l (lst abc_state) \<le> 3 \<and>
   zerolist_pop_at cfg_growable abc_state 3 = (0, abc_state) \<and>
   \<not> SIZE_ENABLE cfg_nosize \<and> ring abc_state [1024, 1056, 1088] \<and>
   length [1024::nat, 1056, 1088] \<le> 5 \<and>
   walk_index abc_state (head (lst abc_state)) 5 = None \<and>
   zerolist_pop_at cfg_nosize abc_state 5 = (0, abc_state)"
proof -
  have a: "head (lst blank_state) = 0" by (simp add: blank_state_def)
  have b: "SIZE_ENABLE cfg_growable \<and> head (lst abc_state) \<noteq> 0 \<and> size_l (lst abc_state) \<le> 3"
    by (simp add: cfg_growable_def abc_state_def)
  have c: "\<not> SIZE_ENABLE cfg_nosize \<and> head (lst abc_state) \<noteq> 0 \<and>
           ring abc_state [1024, 1056, 1088] \<and> length [1024::nat, 1056, 1088] \<le> 5"
    by (simp add: cfg_nosize_def abc_state_def ring_def)
  show ?thesis
    using a b c
      C8_pop_at_rejects [of blank_state cfg_growable 0 "[]"]
      C8_pop_at_rejects [of abc_state cfg_growable 3 "[]"]
      C8_pop_at_rejects [of abc_state cfg_nosize 5 "[1024, 1056, 1088]"]
    by blast
qed

subsection \<open>The primitive writes, field by field\<close>

lemma wr_next_sel [simp]:
  "lst (wr_next s a v) = lst s" "stk (wr_next s a v) = stk s"
  "env (wr_next s a v) = env s" "freed (wr_next s a v) = freed s"
  "mem (wr_next s a v) = (mem s)(a := (mem s a)\<lparr>next := v\<rparr>)"
  by (simp_all add: wr_next_def)

lemma wr_prev_sel [simp]:
  "lst (wr_prev s a v) = lst s" "stk (wr_prev s a v) = stk s"
  "env (wr_prev s a v) = env s" "freed (wr_prev s a v) = freed s"
  "mem (wr_prev s a v) = (mem s)(a := (mem s a)\<lparr>prev := v\<rparr>)"
  by (simp_all add: wr_prev_def)

lemma wr_data_sel [simp]:
  "lst (wr_data s a v) = lst s" "stk (wr_data s a v) = stk s"
  "env (wr_data s a v) = env s" "freed (wr_data s a v) = freed s"
  "mem (wr_data s a v) = (mem s)(a := (mem s a)\<lparr>data := v\<rparr>)"
  by (simp_all add: wr_data_def)

lemma wr_flags_sel [simp]:
  "lst (wr_flags cfg s a u i) = lst s" "stk (wr_flags cfg s a u i) = stk s"
  "env (wr_flags cfg s a u i) = env s" "freed (wr_flags cfg s a u i) = freed s"
  "mem (wr_flags cfg s a u i) =
     (mem s)(a := (mem s a)\<lparr>in_use := u, index := i mod 2 ^ (TYPE_BITS cfg - 1)\<rparr>)"
  by (simp_all add: wr_flags_def)

lemma slot_simps [simp]:
  "slot cfg (s\<lparr>mem := m\<rparr>) i = slot cfg s i"
  "slot cfg (s\<lparr>stk := k\<rparr>) i = slot cfg s i"
  "slot cfg (s\<lparr>env := e\<rparr>) i = slot cfg s i"
  "slot cfg (s\<lparr>freed := f\<rparr>) i = slot cfg s i"
  "slot cfg (wr_next s a v) i = slot cfg s i"
  "slot cfg (wr_prev s a v) i = slot cfg s i"
  "slot cfg (wr_data s a v) i = slot cfg s i"
  "slot cfg (wr_flags cfg' s a u j) i = slot cfg s i"
  by (simp_all add: slot_def)

lemma ZT_id: "n \<le> ZT_MAX cfg \<Longrightarrow> ZT cfg n = n"
proof -
  assume "n \<le> ZT_MAX cfg"
  moreover have "(0::nat) < 2 ^ TYPE_BITS cfg" by simp
  ultimately have "n < 2 ^ TYPE_BITS cfg" unfolding ZT_MAX_def by linarith
  then show ?thesis by (simp add: ZT_def)
qed

lemma init_static_node_sel [simp]:
  "fst (init_static_node cfg s node idx) = node"
  "lst (snd (init_static_node cfg s node idx)) = lst s"
  "stk (snd (init_static_node cfg s node idx)) = stk s"
  "env (snd (init_static_node cfg s node idx)) = env s"
  "freed (snd (init_static_node cfg s node idx)) = freed s"
  by (simp_all add: init_static_node_def NODE_SET_IN_USE_def Let_def)

subsection \<open>Order of allocation from the free stack\<close>

lemma alloc_node_from_stack:
  assumes "FAST_ALLOC cfg" "\<not> USE_MALLOC cfg" "node_buf (lst s) \<noteq> 0" "max_nodes (lst s) \<noteq> 0"
    and "0 < free_top (lst s)" "free_top (lst s) \<le> ZT_MAX cfg"
  shows "zerolist_alloc_node cfg s =
           Some (init_static_node cfg (s\<lparr>lst := (lst s)\<lparr>free_top := free_top (lst s) - 1\<rparr>\<rparr>)
                  (slot cfg s (stk s (free_top (lst s) - 1))) (stk s (free_top (lst s) - 1)))"
proof -
  have z: "ZT cfg (free_top (lst s) - 1) = free_top (lst s) - 1"
    using assms(6) by (intro ZT_id) simp
  have t: "ZEROLIST_TRY_ALLOC_STATIC cfg s 0 0 =
             (slot cfg s (stk s (free_top (lst s) - 1)), stk s (free_top (lst s) - 1),
              s\<lparr>lst := (lst s)\<lparr>free_top := free_top (lst s) - 1\<rparr>\<rparr>)"
    using assms(1,5) z
    by (simp add: ZEROLIST_TRY_ALLOC_STATIC_def ZEROLIST_ALLOC_FROM_STACK_def Let_def slot_def)
  have nz: "slot cfg s (stk s (free_top (lst s) - 1)) \<noteq> 0"
    using assms(3) by (simp add: slot_def)
  show ?thesis
    using assms(2,3,4) t nz by (simp add: zerolist_alloc_node_def)
qed

lemma alloc_many_descending:
  assumes c: "FAST_ALLOC cfg" "\<not> USE_MALLOC cfg"
  shows "node_buf (lst s) \<noteq> 0 \<Longrightarrow> max_nodes (lst s) \<le> ZT_MAX cfg \<Longrightarrow>
         free_top (lst s) \<le> max_nodes (lst s) \<Longrightarrow>
         (\<forall>j < free_top (lst s). stk s j = max_nodes (lst s) - 1 - j) \<Longrightarrow>
         k \<le> free_top (lst s) \<Longrightarrow>
         map_option fst (alloc_many cfg s k) =
           Some (map (\<lambda>i. slot cfg s (max_nodes (lst s) - free_top (lst s) + i)) [0..<k])"
proof (induction k arbitrary: s)
  case 0
  then show ?case by simp
next
  case (Suc k)
  let ?t = "free_top (lst s)" and ?n = "max_nodes (lst s)"
  let ?s1 = "s\<lparr>lst := (lst s)\<lparr>free_top := ?t - 1\<rparr>\<rparr>"
  let ?r = "init_static_node cfg ?s1 (slot cfg s (stk s (?t - 1))) (stk s (?t - 1))"
  have pos: "0 < ?t" using Suc.prems(5) by simp
  have a: "zerolist_alloc_node cfg s = Some ?r"
    using c Suc.prems pos by (intro alloc_node_from_stack) auto
  have top: "stk s (?t - 1) = ?n - ?t" using Suc.prems(4) pos by simp
  have "map_option fst (alloc_many cfg (snd ?r) k) =
          Some (map (\<lambda>i. slot cfg (snd ?r) (max_nodes (lst (snd ?r)) - free_top (lst (snd ?r)) + i)) [0..<k])"
    using Suc.prems pos by (intro Suc.IH) auto
  then have ih: "map_option fst (alloc_many cfg (snd ?r) k) =
          Some (map (\<lambda>i. slot cfg s (?n - ?t + Suc i)) [0..<k])"
    using pos Suc.prems(3) by (simp add: slot_def Suc_diff_le)
  obtain as s2 where as: "alloc_many cfg (snd ?r) k = Some (as, s2)"
    and asv: "as = map (\<lambda>i. slot cfg s (?n - ?t + Suc i)) [0..<k]"
    using ih by (cases "alloc_many cfg (snd ?r) k") auto
  have "map (\<lambda>i. slot cfg s (?n - ?t + i)) [0..<Suc k] =
          slot cfg s (?n - ?t) # map (\<lambda>i. slot cfg s (?n - ?t + Suc i)) [0..<k]"
    by (simp add: upt_conv_Cons map_Suc_upt [symmetric] del: upt_Suc)
  then show ?case
    using a as asv top by (simp add: split_beta)
qed

lemma fold_init_slot_fast_sel:
  "lst (fold (init_slot_fast cfg buf n) [0..<m] s) = lst s"
  "stk (fold (init_slot_fast cfg buf n) [0..<m] s) j =
     (if j < m then ZT cfg (n - 1 - j) else stk s j)"
  by (induction m) (auto simp: init_slot_fast_def)

lemma init_expand_fast_sel:
  assumes "FAST_ALLOC cfg" "buf \<noteq> 0" "0 < n"
  shows "node_buf (lst (zerolist_init_expand cfg s buf fs n)) = buf"
    "max_nodes (lst (zerolist_init_expand cfg s buf fs n)) = n"
    "free_top (lst (zerolist_init_expand cfg s buf fs n)) = n"
    "free_stack (lst (zerolist_init_expand cfg s buf fs n)) = fs"
    "head (lst (zerolist_init_expand cfg s buf fs n)) = 0"
    "stk (zerolist_init_expand cfg s buf fs n) j = (if j < n then ZT cfg (n - 1 - j) else stk s j)"
  using assms by (simp_all add: zerolist_init_expand_def Let_def fold_init_slot_fast_sel)

lemma list_init_dynamic_expand_fast_sel:
  assumes "FAST_ALLOC cfg" "env s = buf # fs # rest" "buf \<noteq> 0" "fs \<noteq> 0" "0 < n"
  shows "fst (list_init_dynamic_expand cfg s n)"
    "node_buf (lst (snd (list_init_dynamic_expand cfg s n))) = buf"
    "max_nodes (lst (snd (list_init_dynamic_expand cfg s n))) = n"
    "free_top (lst (snd (list_init_dynamic_expand cfg s n))) = n"
    "free_stack (lst (snd (list_init_dynamic_expand cfg s n))) = fs"
    "head (lst (snd (list_init_dynamic_expand cfg s n))) = 0"
    "stk (snd (list_init_dynamic_expand cfg s n)) j = (if j < n then ZT cfg (n - 1 - j) else stk s j)"
  using assms
  by (simp_all add: list_init_dynamic_expand_def ZEROLIST_MALLOC_def Let_def fold_init_slot_fast_sel)

lemma free_then_alloc:
  assumes "FAST_ALLOC cfg" "\<not> USE_MALLOC cfg" "0 < NODE_SIZE cfg"
    and "node_buf (lst s) \<noteq> 0" "free_stack (lst s) \<noteq> 0"
    and "i < max_nodes (lst s)" "max_nodes (lst s) \<le> ZT_MAX cfg"
    and "free_top (lst s) < max_nodes (lst s)"
  shows "map_option fst (zerolist_alloc_node cfg (zerolist_free_node cfg s (slot cfg s i)))
           = Some (slot cfg s i)"
proof -
  let ?a = "slot cfg s i"
  have nz: "?a \<noteq> 0" using assms(4) by (simp add: slot_def)
  have st: "zerolist_is_static_node cfg s ?a"
    using assms(2,3,4,6) nz by (simp add: zerolist_is_static_node_def slot_def Let_def)
  have ix: "zerolist_calc_node_index cfg s ?a = i"
    using assms(3,4,6,7) nz by (simp add: zerolist_calc_node_index_def slot_def ZT_id)
  have fr: "zerolist_free_node cfg s ?a = ZEROLIST_FREE_STATIC_NODE cfg s ?a i"
    using assms(2) nz st ix by (simp add: zerolist_free_node_def)
  let ?s' = "ZEROLIST_FREE_STATIC_NODE cfg s ?a i"
  have zt: "ZT cfg (Suc (free_top (lst s))) = Suc (free_top (lst s))"
    using assms(7,8) by (intro ZT_id) simp
  have l: "lst ?s' = (lst s)\<lparr>free_top := Suc (free_top (lst s))\<rparr>"
    and k: "stk ?s' (free_top (lst s)) = i"
    using assms(1,5,6,8) nz zt
    by (simp_all add: ZEROLIST_FREE_STATIC_NODE_def ZEROLIST_FREE_TO_STACK_def NODE_SET_FREE_def Let_def)
  have "zerolist_alloc_node cfg ?s' =
           Some (init_static_node cfg (?s'\<lparr>lst := (lst ?s')\<lparr>free_top := free_top (lst ?s') - 1\<rparr>\<rparr>)
                  (slot cfg ?s' (stk ?s' (free_top (lst ?s') - 1))) (stk ?s' (free_top (lst ?s') - 1)))"
    using assms l by (intro alloc_node_from_stack) auto
  then show ?thesis using fr l k by (simp add: slot_def)
qed

text \<open>
  Claim C9. With the free stack: (1) after \<^verbatim>\<open>zerolist_init_expand\<close> on a buffer of \<open>n\<close> slots,
  and (2) after \<^verbatim>\<open>list_init_dynamic_expand\<close> when the allocator grants the buffer and the
  stack, the first \<open>k \<le> n\<close> acquisitions return the slots \<open>0, 1, ..., k - 1\<close> in this order;
  (3) when a slot of the arena is released while the stack is not full, the next acquisition
  returns this very slot.
\<close>

theorem C9_allocation_order:
  "(FAST_ALLOC cfg \<and> \<not> USE_MALLOC cfg \<and> buf \<noteq> 0 \<and> 0 < n \<and> n \<le> ZT_MAX cfg \<and> k \<le> n \<longrightarrow>
      map_option fst (alloc_many cfg (zerolist_init_expand cfg s buf fs n) k) =
        Some (map (\<lambda>i. buf + i * NODE_SIZE cfg) [0..<k])) \<and>
   (FAST_ALLOC cfg \<and> \<not> USE_MALLOC cfg \<and> env s = buf # fs # rest \<and> buf \<noteq> 0 \<and> fs \<noteq> 0 \<and>
    0 < n \<and> n \<le> ZT_MAX cfg \<and> k \<le> n \<longrightarrow>
      map_option fst (alloc_many cfg (snd (list_init_dynamic_expand cfg s n)) k) =
        Some (map (\<lambda>i. buf + i * NODE_SIZE cfg) [0..<k])) \<and>
   (FAST_ALLOC cfg \<and> \<not> USE_MALLOC cfg \<and> 0 < NODE_SIZE cfg \<and>
    node_buf (lst s) \<noteq> 0 \<and> free_stack (lst s) \<noteq> 0 \<and>
    i < max_nodes (lst s) \<and> max_nodes (lst s) \<le> ZT_MAX cfg \<and>
    free_top (lst s) < max_nodes (lst s) \<longrightarrow>
      map_option fst (zerolist_alloc_node cfg (zerolist_free_node cfg s (slot cfg s i)))
        = Some (slot cfg s i))"
proof (intro conjI impI)
  assume h: "FAST_ALLOC cfg \<and> \<not> USE_MALLOC cfg \<and> buf \<noteq> 0 \<and> 0 < n \<and> n \<le> ZT_MAX cfg \<and> k \<le> n"
  let ?s0 = "zerolist_init_expand cfg s buf fs n"
  have sel: "node_buf (lst ?s0) = buf" "max_nodes (lst ?s0) = n" "free_top (lst ?s0) = n"
    "\<And>j. stk ?s0 j = (if j < n then ZT cfg (n - 1 - j) else stk s j)"
    using h by (simp_all add: init_expand_fast_sel)
  have "map_option fst (alloc_many cfg ?s0 k) =
          Some (map (\<lambda>i. slot cfg ?s0 (max_nodes (lst ?s0) - free_top (lst ?s0) + i)) [0..<k])"
    using h sel by (intro alloc_many_descending) (auto simp: ZT_id)
  then show "map_option fst (alloc_many cfg ?s0 k) = Some (map (\<lambda>i. buf + i * NODE_SIZE cfg) [0..<k])"
    using sel by (simp add: slot_def)
next
  assume h: "FAST_ALLOC cfg \<and> \<not> USE_MALLOC cfg \<and> env s = buf # fs # rest \<and> buf \<noteq> 0 \<and> fs \<noteq> 0 \<and>
    0 < n \<and> n \<le> ZT_MAX cfg \<and> k \<le> n"
  let ?s0 = "snd (list_init_dynamic_expand cfg s n)"
  have sel: "node_buf (lst ?s0) = buf" "max_nodes (lst ?s0) = n" "free_top (lst ?s0) = n"
    "\<And>j. stk ?s0 j = (if j < n then ZT cfg (n - 1 - j) else stk s j)"
    using h list_init_dynamic_expand_fast_sel [of cfg s buf fs rest n] by simp_all
  have "map_option fst (alloc_many cfg ?s0 k) =
          Some (map (\<lambda>i. slot cfg ?s0 (max_nodes (lst ?s0) - free_top (lst ?s0) + i)) [0..<k])"
    using h sel by (intro alloc_many_descending) (auto simp: ZT_id)
  then show "map_option fst (alloc_many cfg ?s0 k) = Some (map (\<lambda>i. buf + i * NODE_SIZE cfg) [0..<k])"
    using sel by (simp add: slot_def)
next
  assume "FAST_ALLOC cfg \<and> \<not> USE_MALLOC cfg \<and> 0 < NODE_SIZE cfg \<and>
    node_buf (lst s) \<noteq> 0 \<and> free_stack (lst s) \<noteq> 0 \<and>
    i < max_nodes (lst s) \<and> max_nodes (lst s) \<le> ZT_MAX cfg \<and>
    free_top (lst s) < max_nodes (lst s)"
  then show "map_option fst (zerolist_alloc_node cfg (zerolist_free_node cfg s (slot cfg s i)))
        = Some (slot cfg s i)"
    by (intro free_then_alloc) auto
qed

theorem C9_allocation_order_witness:
  "map_option fst (alloc_many cfg_fixed (zerolist_init_expand cfg_fixed blank_state 1024 8192 4) 3)
     = Some [1024, 1056, 1088] \<and>
   map_option fst (alloc_many cfg_growable
       (snd (list_init_dynamic_expand cfg_growable (blank_state\<lparr>env := [1024, 8192]\<rparr>) 4)) 3)
     = Some [1024, 1056, 1088] \<and>
   free_top (lst abc_state) < max_nodes (lst abc_state) \<and>
   map_option fst (zerolist_alloc_node cfg_growable
       (zerolist_free_node cfg_growable abc_state (slot cfg_growable abc_state 1)))
     = Some 1056"
proof -
  have a: "FAST_ALLOC cfg_fixed \<and> \<not> USE_MALLOC cfg_fixed \<and> (1024::nat) \<noteq> 0 \<and> (0::nat) < 4 \<and>
           4 \<le> ZT_MAX cfg_fixed \<and> (3::nat) \<le> 4"
    by (simp add: cfg_fixed_def ZT_MAX_def)
  have b: "FAST_ALLOC cfg_growable \<and> \<not> USE_MALLOC cfg_growable \<and>
           env (blank_state\<lparr>env := [1024, 8192]\<rparr>) = 1024 # 8192 # [] \<and>
           (1024::nat) \<noteq> 0 \<and> (8192::nat) \<noteq> 0 \<and> (0::nat) < 4 \<and>
           4 \<le> ZT_MAX cfg_growable \<and> (3::nat) \<le> 4"
    by (simp add: cfg_growable_def ZT_MAX_def)
  have c: "FAST_ALLOC cfg_growable \<and> \<not> USE_MALLOC cfg_growable \<and> 0 < NODE_SIZE cfg_growable \<and>
           node_buf (lst abc_state) \<noteq> 0 \<and> free_stack (lst abc_state) \<noteq> 0 \<and>
           1 < max_nodes (lst abc_state) \<and> max_nodes (lst abc_state) \<le> ZT_MAX cfg_growable \<and>
           free_top (lst abc_state) < max_nodes (lst abc_state)"
    by (simp add: cfg_growable_def abc_state_def ZT_MAX_def)
  have m: "map (\<lambda>i. 1024 + i * NODE_SIZE cfg_fixed) [0..<3] = [1024, 1056, 1088]"
    "map (\<lambda>i. 1024 + i * NODE_SIZE cfg_growable) [0..<3] = [1024, 1056, 1088]"
    "slot cfg_growable abc_state 1 = 1056"
    by (simp_all add: cfg_fixed_def cfg_growable_def upt_rec slot_def abc_state_def)
  from a have 1: "map_option fst (alloc_many cfg_fixed
        (zerolist_init_expand cfg_fixed blank_state 1024 8192 4) 3) = Some [1024, 1056, 1088]"
    using C9_allocation_order [where cfg = cfg_fixed and buf = 1024 and n = 4 and k = 3
        and s = blank_state and fs = 8192] m(1)
    by simp
  from b have 2: "map_option fst (alloc_many cfg_growable
       (snd (list_init_dynamic_expand cfg_growable (blank_state\<lparr>env := [1024, 8192]\<rparr>) 4)) 3)
     = Some [1024, 1056, 1088]"
    using C9_allocation_order [where cfg = cfg_growable and buf = 1024 and n = 4 and k = 3
        and s = "blank_state\<lparr>env := [1024, 8192]\<rparr>" and fs = 8192 and rest = "[]"] m(2)
    by simp
  from c have 3: "map_option fst (zerolist_alloc_node cfg_growable
       (zerolist_free_node cfg_growable abc_state (slot cfg_growable abc_state 1))) = Some 1056"
    using C9_allocation_order [where cfg = cfg_growable and s = abc_state and i = 1] m(3)
    by simp
  from 1 2 3 c show ?thesis by simp
qed

subsection \<open>Release under the heap fallback\<close>

lemmas eval_init = zerolist_init_expand_def init_slot_fast_def init_slot_def
  blank_state_def blank_node_def upt_rec Let_def ZT_def wr_flags_def

lemmas eval_push = zerolist_push_back_def zerolist_push_front_def zerolist_insert_internal_def
  zerolist_alloc_node_def ZEROLIST_TRY_ALLOC_STATIC_def ZEROLIST_ALLOC_FROM_STACK_def
  ZEROLIST_MALLOC_def slot_def init_static_node_def NODE_SET_IN_USE_def
  NODE_SET_IN_USE_SIMPLE_def Let_def size_inc_def ZT_def zerolist_is_static_node_def
  blank_node_def wr_next_def wr_prev_def wr_data_def wr_flags_def

lemmas eval_remove = remove_node_def zerolist_detach_node_def zerolist_free_node_def
  zerolist_is_static_node_def zerolist_calc_node_index_def ZEROLIST_FREE_STATIC_NODE_def
  ZEROLIST_FREE_TO_STACK_def ZEROLIST_FREE_def NODE_SET_FREE_def size_dec_def ZT_dec_def
  ZT_def ZT_MAX_def Let_def wr_next_def wr_prev_def wr_data_def wr_flags_def

lemma fb_init:
  "zerolist_init_expand cfg_fallback (blank_state\<lparr>env := [4096]\<rparr>) 1024 8192 2 = fb0"
  by (auto simp add: eval_init cfg_fallback_def fb0_def fun_eq_iff)

lemma fb_push_a: "zerolist_push_back cfg_fallback fb0 11 = Some (True, fb1)"
  by (simp add: eval_push cfg_fallback_def fb0_def fb1_def fun_eq_iff)

lemma fb_push_b: "zerolist_push_back cfg_fallback fb1 22 = Some (True, fb2)"
  by (simp add: eval_push cfg_fallback_def fb1_def fb2_def fun_eq_iff)

lemma fb_push_c: "zerolist_push_back cfg_fallback fb2 33 = Some (True, fb_state)"
  by (simp add: eval_push cfg_fallback_def fb2_def fb_state_def fun_eq_iff)

lemma fb_remove_b: "zerolist_remove_ptr cfg_fallback fb_state 22 = Some (True, fb_state_b)"
  apply (simp add: zerolist_remove_ptr_def cfg_fallback_def)
  apply (subst remove_walk.simps)
  apply (simp add: fb_state_def)
  apply (subst remove_walk.simps)
  apply (simp add: eval_remove fb_state_b_def fun_eq_iff)
  done

lemma fb_remove_c: "zerolist_remove_ptr cfg_fallback fb_state_b 33 = Some (True, fb_state_c)"
  apply (simp add: zerolist_remove_ptr_def cfg_fallback_def)
  apply (subst remove_walk.simps)
  apply (simp add: fb_state_b_def)
  apply (subst remove_walk.simps)
  apply (simp add: eval_remove fb_state_c_def fun_eq_iff)
  done

text \<open>
  Claim C4. Under the heap fallback, on an initialised arena, \<^verbatim>\<open>zerolist_free_node\<close> of a
  non-null node takes the arena path exactly when
  \<open>node_buf \<le> node < node_buf + max_nodes * NODE_SIZE\<close>, and the heap path otherwise; the
  test gives the same answer whatever the memory holds, so the flags of the node play no
  role. In the scenario of the claim (arena of two slots; 11 and 22 pushed into the arena,
  33 pushed into a heap node at 4096), the nodes of 11 and 22 are inside the arena and the
  node of 33 is not; removing 22 marks its slot 1 free and puts it on the free stack, with
  nothing handed to \<^verbatim>\<open>ZEROLIST_FREE\<close>; removing 33 then hands 4096 to \<^verbatim>\<open>ZEROLIST_FREE\<close>.
\<close>

theorem C4_fallback_release_routing:
  "(STATIC_FALLBACK_MALLOC cfg \<and> \<not> USE_MALLOC cfg \<and> node \<noteq> 0 \<and> node_buf (lst s) \<noteq> 0 \<longrightarrow>
      zerolist_free_node cfg s node =
        (if node_buf (lst s) \<le> node \<and> node < node_buf (lst s) + max_nodes (lst s) * NODE_SIZE cfg
         then ZEROLIST_FREE_STATIC_NODE cfg s node (zerolist_calc_node_index cfg s node)
         else ZEROLIST_FREE s node) \<and>
      zerolist_is_static_node cfg (s\<lparr>mem := m\<rparr>) node = zerolist_is_static_node cfg s node) \<and>
   do {
     (ra, s1) \<leftarrow> zerolist_push_back cfg_fallback
                   (zerolist_init_expand cfg_fallback (blank_state\<lparr>env := [4096]\<rparr>) 1024 8192 2) 11;
     (rb, s2) \<leftarrow> zerolist_push_back cfg_fallback s1 22;
     (rc, s3) \<leftarrow> zerolist_push_back cfg_fallback s2 33;
     (rd, s4) \<leftarrow> zerolist_remove_ptr cfg_fallback s3 22;
     (re, s5) \<leftarrow> zerolist_remove_ptr cfg_fallback s4 33;
     Some ([ra, rb, rc, rd, re],
           map (\<lambda>a. (data (mem s3 a), zerolist_is_static_node cfg_fallback s3 a)) [1024, 1056, 4096],
           (in_use (mem s4 1056), free_top (lst s3), free_top (lst s4), stk s4 0, freed s4),
           freed s5)
   } = Some ([True, True, True, True, True],
             [(11, True), (22, True), (33, False)],
             (False, 0, 1, 1, []),
             [4096])"
proof -
  have route: "STATIC_FALLBACK_MALLOC cfg \<and> \<not> USE_MALLOC cfg \<and> node \<noteq> 0 \<and> node_buf (lst s) \<noteq> 0 \<longrightarrow>
      zerolist_free_node cfg s node =
        (if node_buf (lst s) \<le> node \<and> node < node_buf (lst s) + max_nodes (lst s) * NODE_SIZE cfg
         then ZEROLIST_FREE_STATIC_NODE cfg s node (zerolist_calc_node_index cfg s node)
         else ZEROLIST_FREE s node) \<and>
      zerolist_is_static_node cfg (s\<lparr>mem := m\<rparr>) node = zerolist_is_static_node cfg s node"
    by (simp add: zerolist_free_node_def zerolist_is_static_node_def Let_def)
  have st: "map (\<lambda>a. (data (mem fb_state a), zerolist_is_static_node cfg_fallback fb_state a))
              [1024, 1056, 4096] = [(11, True), (22, True), (33, False)]"
    by (simp add: fb_state_def cfg_fallback_def zerolist_is_static_node_def)
  have obs: "in_use (mem fb_state_b 1056) = False" "free_top (lst fb_state) = 0"
    "free_top (lst fb_state_b) = 1" "stk fb_state_b 0 = 1" "freed fb_state_b = []"
    "freed fb_state_c = [4096]"
    by (simp_all add: fb_state_def fb_state_b_def fb_state_c_def)
  show ?thesis
    using route st obs
    by (simp add: fb_init fb_push_a fb_push_b fb_push_c fb_remove_b fb_remove_c)
qed

theorem C4_fallback_release_routing_witness:
  "STATIC_FALLBACK_MALLOC cfg_fallback \<and> \<not> USE_MALLOC cfg_fallback \<and> (1056::nat) \<noteq> 0 \<and>
   node_buf (lst fb_state) \<noteq> 0 \<and>
   zerolist_free_node cfg_fallback fb_state 1056 =
     ZEROLIST_FREE_STATIC_NODE cfg_fallback fb_state 1056
       (zerolist_calc_node_index cfg_fallback fb_state 1056) \<and>
   zerolist_free_node cfg_fallback fb_state 4096 = ZEROLIST_FREE fb_state 4096"
proof -
  have h: "STATIC_FALLBACK_MALLOC cfg_fallback \<and> \<not> USE_MALLOC cfg_fallback \<and> (1056::nat) \<noteq> 0 \<and>
           (4096::nat) \<noteq> 0 \<and> node_buf (lst fb_state) \<noteq> 0"
    by (simp add: cfg_fallback_def fb_state_def)
  have r: "node_buf (lst fb_state) \<le> 1056 \<and>
           1056 < node_buf (lst fb_state) + max_nodes (lst fb_state) * NODE_SIZE cfg_fallback"
    "\<not> (node_buf (lst fb_state) \<le> 4096 \<and>
           4096 < node_buf (lst fb_state) + max_nodes (lst fb_state) * NODE_SIZE cfg_fallback)"
    by (simp_all add: cfg_fallback_def fb_state_def)
  show ?thesis
    using h r
      C4_fallback_release_routing [where cfg = cfg_fallback and s = fb_state and node = 1056]
      C4_fallback_release_routing [where cfg = cfg_fallback and s = fb_state and node = 4096]
    by simp
qed

subsection \<open>Rotations\<close>

lemma rotate1_rev_rotate1: "rotate1 (rev (rotate1 ns)) = rev ns"
  by (cases ns) simp_all

lemma ring_last_prev:
  assumes "ring s ns" "head (lst s) \<noteq> 0"
  shows "prev (mem s (head (lst s))) = last ns"
proof -
  have ne: "ns \<noteq> []" using ring_nonempty(1) [OF assms] .
  then have "length ns - 1 < length ns" by simp
  from ring_prev_nth [OF assms this]
  have "prev (mem s (ns ! (Suc (length ns - 1) mod length ns))) = ns ! (length ns - 1)" .
  then show ?thesis using ne ring_head_nth [OF assms] by (simp add: last_conv_nth)
qed

subsection \<open>Traversal of a ring\<close>

lemma for_each_loop_ring:
  assumes r: "ring s ns" and h: "head (lst s) \<noteq> 0"
  shows "k < length ns \<Longrightarrow>
         ZEROLIST_FOR_EACH_loop s (head (lst s)) (ns ! k) acc = Some (acc @ drop k ns)"
proof (induction "length ns - k" arbitrary: k acc)
  case 0
  then show ?case by simp
next
  case (Suc d)
  have nz: "ns ! k \<noteq> 0" using ring_nonempty(4) [OF r h] Suc.prems by (metis nth_mem)
  have nx: "next (mem s (ns ! k)) = ns ! (Suc k mod length ns)"
    using ring_next_nth [OF r h Suc.prems] .
  show ?case
  proof (cases "Suc k = length ns")
    case True
    then have "next (mem s (ns ! k)) = head (lst s)"
      using nx ring_head_nth [OF r h] by simp
    moreover have "drop k ns = [ns ! k]"
      using True Suc.prems by (metis Cons_nth_drop_Suc drop_all le_refl)
    ultimately show ?thesis using nz
      by (subst ZEROLIST_FOR_EACH_loop.simps, subst ZEROLIST_FOR_EACH_loop.simps) simp
  next
    case False
    then have lt: "Suc k < length ns" using Suc.prems by simp
    then have nx': "next (mem s (ns ! k)) = ns ! Suc k" using nx by simp
    have "0 < length ns" using lt by auto
    then have "ns ! Suc k \<noteq> ns ! 0"
      using ring_nonempty(3) [OF r h] lt nth_eq_iff_index_eq [of ns "Suc k" 0] by simp
    then have nh: "next (mem s (ns ! k)) \<noteq> head (lst s)"
      using nx' ring_head_nth [OF r h] by simp
    have d: "d = length ns - Suc k" using Suc.hyps(2) by simp
    have "ZEROLIST_FOR_EACH_loop s (head (lst s)) (ns ! Suc k) (acc @ [ns ! k])
            = Some ((acc @ [ns ! k]) @ drop (Suc k) ns)"
      using Suc.hyps(1) [OF d lt] .
    then show ?thesis using nz nh nx' Suc.prems
      by (subst ZEROLIST_FOR_EACH_loop.simps) (simp add: Cons_nth_drop_Suc)
  qed
qed

lemma for_each_ring: "ring s ns \<Longrightarrow> ZEROLIST_FOR_EACH s = Some ns"
proof (cases "head (lst s) = 0")
  case True
  assume "ring s ns"
  then show ?thesis using True by (simp add: ZEROLIST_FOR_EACH_def ring_def)
next
  case False
  assume r: "ring s ns"
  have "0 < length ns" using ring_nonempty(1) [OF r False] by simp
  from for_each_loop_ring [OF r False this, of "[]"] show ?thesis
    using False ring_head_nth [OF r False] by (simp add: ZEROLIST_FOR_EACH_def)
qed

subsection \<open>Reversal\<close>

lemma swap_links_twice [simp]: "swap_links (swap_links nd) = nd"
  by (simp add: swap_links_def)

lemma swap_links_sel [simp]:
  "next (swap_links nd) = prev nd" "prev (swap_links nd) = next nd"
  "data (swap_links nd) = data nd" "in_use (swap_links nd) = in_use nd"
  "index (swap_links nd) = index nd"
  by (simp_all add: swap_links_def)

lemma reversed_sel [simp]:
  "lst (reversed s ns) = lst s" "stk (reversed s ns) = stk s"
  "env (reversed s ns) = env s" "freed (reversed s ns) = freed s"
  "mem (reversed s ns) a = (if a \<in> set ns then swap_links (mem s a) else mem s a)"
  by (simp_all add: reversed_def)

lemma reversed_step:
  assumes "c \<notin> set xs"
  shows "wr_prev (wr_next (reversed s xs) c (prev (mem (reversed s xs) c))) c
           (next (mem (reversed s xs) c)) = reversed s (xs @ [c])"
  using assms
  by (auto simp: reversed_def wr_prev_def wr_next_def swap_links_def fun_eq_iff)

lemma reverse_loop_ring:
  assumes r: "ring s ns" and h: "head (lst s) \<noteq> 0"
  shows "k < length ns \<Longrightarrow>
         zerolist_reverse_loop (reversed s (take k ns)) (ns ! k) = Some (reversed s ns)"
proof (induction "length ns - k" arbitrary: k)
  case 0
  then show ?case by simp
next
  case (Suc d)
  let ?sk = "reversed s (take k ns)"
  have dist: "distinct ns" using ring_nonempty(3) [OF r h] .
  have notin: "ns ! k \<notin> set (take k ns)"
    using dist Suc.prems by (metis distinct_take id_take_nth_drop not_distinct_conv_prefix)
  have tk: "take (Suc k) ns = take k ns @ [ns ! k]"
    using Suc.prems by (simp add: take_Suc_conv_app_nth)
  have nx: "next (mem ?sk (ns ! k)) = ns ! (Suc k mod length ns)"
    using notin ring_next_nth [OF r h Suc.prems] by simp
  have step: "wr_prev (wr_next ?sk (ns ! k) (prev (mem ?sk (ns ! k)))) (ns ! k)
                (next (mem ?sk (ns ! k))) = reversed s (take (Suc k) ns)"
    using reversed_step [OF notin] tk by simp
  show ?case
  proof (cases "Suc k = length ns")
    case True
    then have "next (mem ?sk (ns ! k)) = head (lst s)"
      using nx ring_head_nth [OF r h] by simp
    then show ?thesis using step True
      by (subst zerolist_reverse_loop.simps) (simp add: Let_def)
  next
    case False
    then have lt: "Suc k < length ns" using Suc.prems by simp
    then have nx': "next (mem ?sk (ns ! k)) = ns ! Suc k" using nx by simp
    have "0 < length ns" using lt by auto
    then have "ns ! Suc k \<noteq> ns ! 0"
      using dist lt nth_eq_iff_index_eq [of ns "Suc k" 0] by simp
    then have nh: "next (mem ?sk (ns ! k)) \<noteq> head (lst s)"
      using nx' ring_head_nth [OF r h] by simp
    have d: "d = length ns - Suc k" using Suc.hyps(2) by simp
    show ?thesis
      using Suc.hyps(1) [OF d lt] step nh nx'
      by (subst zerolist_reverse_loop.simps) (simp add: Let_def)
  qed
qed

lemma reverse_ring:
  assumes r: "ring s ns" and n: "2 \<le> length ns"
  shows "zerolist_reverse s = Some ((reversed s ns)\<lparr>lst := (lst s)\<lparr>head := last ns\<rparr>\<rparr>)"
proof -
  have h: "head (lst s) \<noteq> 0" using r n by (auto simp: ring_def split: if_splits)
  have l0: "0 < length ns" and l1: "1 < length ns" using n by auto
  from reverse_loop_ring [OF r h l0]
  have loop: "zerolist_reverse_loop s (head (lst s)) = Some (reversed s ns)"
    using ring_head_nth [OF r h] by (simp add: reversed_def)
  have "next (mem s (ns ! 0)) = ns ! 1"
    using ring_next_nth [OF r h l0] l1 by simp
  moreover have "ns ! 1 \<noteq> ns ! 0"
    using ring_nonempty(3) [OF r h] l0 l1 nth_eq_iff_index_eq [of ns 1 0] by simp
  ultimately have "next (mem s (head (lst s))) \<noteq> head (lst s)"
    using ring_head_nth [OF r h] by simp
  then show ?thesis
    using h loop ring_last_prev [OF r h] by (simp add: zerolist_reverse_def)
qed

lemma ring_reversed:
  assumes r: "ring s ns" and h: "head (lst s) \<noteq> 0"
  shows "ring ((reversed s ns)\<lparr>lst := (lst s)\<lparr>head := last ns\<rparr>\<rparr>) (rev ns)"
proof -
  have ne: "ns \<noteq> []" and d: "distinct ns" and z: "0 \<notin> set ns"
    and nx: "map (\<lambda>a. next (mem s a)) ns = rotate1 ns"
    and pv: "map (\<lambda>a. prev (mem s a)) (rotate1 ns) = ns"
    using ring_nonempty [OF r h] by auto
  let ?R = "rev (rotate1 ns)"
  have R: "rotate1 ?R = rev ns" by (rule rotate1_rev_rotate1)
  have p1: "map (\<lambda>a. prev (mem s a)) ?R = rev ns"
    using pv by (metis rev_map)
  have "map (\<lambda>a. prev (mem s a)) (rev ns) = map (\<lambda>a. prev (mem s a)) (rotate1 ?R)"
    by (simp only: R)
  also have "\<dots> = rotate1 (map (\<lambda>a. prev (mem s a)) ?R)" by (simp only: rotate1_map)
  also have "\<dots> = rotate1 (rev ns)" by (simp only: p1)
  finally have a: "map (\<lambda>a. prev (mem s a)) (rev ns) = rotate1 (rev ns)" .
  have q1: "map (\<lambda>a. next (mem s a)) (rev ns) = ?R"
    using nx by (metis rev_map)
  have "map (\<lambda>a. next (mem s a)) (rotate1 (rev ns)) = rotate1 (map (\<lambda>a. next (mem s a)) (rev ns))"
    by (simp only: rotate1_map)
  also have "\<dots> = rotate1 ?R" by (simp only: q1)
  also have "\<dots> = rev ns" by (rule R)
  finally have b: "map (\<lambda>a. next (mem s a)) (rotate1 (rev ns)) = rev ns" .
  have l0: "last ns \<noteq> 0" using ne z by (metis last_in_set)
  let ?m = "\<lambda>x. if x \<in> set ns then swap_links (mem s x) else mem s x"
  have m1: "map (\<lambda>x. next (?m x)) (rev ns) = map (\<lambda>a. prev (mem s a)) (rev ns)"
    by (intro map_cong) auto
  have m2: "map (\<lambda>x. prev (?m x)) (rotate1 (rev ns)) = map (\<lambda>a. next (mem s a)) (rotate1 (rev ns))"
    by (intro map_cong) auto
  show ?thesis
    using ne d z l0 a b m1 m2
    by (simp add: ring_def hd_rev)
qed

lemma reverse_small:
  assumes r: "ring s ns" and n: "length ns \<le> 1"
  shows "zerolist_reverse s = Some s"
proof (cases "head (lst s) = 0")
  case True
  then show ?thesis by (simp add: zerolist_reverse_def)
next
  case False
  have l0: "0 < length ns" using ring_nonempty(1) [OF r False] by simp
  then have "length ns = 1" using n by (cases ns) auto
  then have "next (mem s (ns ! 0)) = ns ! 0"
    using ring_next_nth [OF r False l0] by simp
  then show ?thesis
    using False ring_head_nth [OF r False] by (simp add: zerolist_reverse_def)
qed

lemma reverse_twice:
  assumes r: "ring s ns"
  shows "(zerolist_reverse s \<bind> zerolist_reverse) = Some s"
proof (cases "length ns \<le> 1")
  case True
  then show ?thesis using reverse_small [OF r] by simp
next
  case False
  then have n: "2 \<le> length ns" by simp
  then have h: "head (lst s) \<noteq> 0" using r by (auto simp: ring_def split: if_splits)
  let ?s' = "(reversed s ns)\<lparr>lst := (lst s)\<lparr>head := last ns\<rparr>\<rparr>"
  have 1: "zerolist_reverse s = Some ?s'" using reverse_ring [OF r n] .
  have r': "ring ?s' (rev ns)" using ring_reversed [OF r h] .
  have n': "2 \<le> length (rev ns)" using n by simp
  have hd: "hd ns = head (lst s)" using ring_nonempty(2) [OF r h] .
  have ne: "ns \<noteq> []" using ring_nonempty(1) [OF r h] .
  have "(reversed ?s' (rev ns))\<lparr>lst := (lst ?s')\<lparr>head := last (rev ns)\<rparr>\<rparr> = s"
    using hd ne by (simp add: reversed_def last_rev fun_eq_iff)
  then have 2: "zerolist_reverse ?s' = Some s" using reverse_ring [OF r' n'] by simp
  show ?thesis using 1 2 by simp
qed

text \<open>
  Claim C7. On a well-formed ring \<open>ns\<close>: reversing twice gives back the very state one
  started from, whose traversal from the head visits \<open>ns\<close>; on a ring of two or more nodes
  one reversal makes the former \<^verbatim>\<open>head->prev\<close> the head, and the traversal from it then
  visits the nodes in the opposite order, with the payloads in the opposite order; on an
  empty or single-node list reversal changes nothing.
\<close>

theorem C7_reverse:
  "(ring s ns \<longrightarrow>
      (zerolist_reverse s \<bind> zerolist_reverse) = Some s \<and>
      (zerolist_reverse s \<bind> zerolist_reverse \<bind> ZEROLIST_FOR_EACH) = Some ns) \<and>
   (ring s ns \<and> 2 \<le> length ns \<longrightarrow>
      (\<exists>s'. zerolist_reverse s = Some s' \<and>
            head (lst s') = prev (mem s (head (lst s))) \<and>
            ring s' (rev ns) \<and> ZEROLIST_FOR_EACH s' = Some (rev ns) \<and>
            payloads s' (rev ns) = rev (payloads s ns))) \<and>
   (ring s ns \<and> length ns \<le> 1 \<longrightarrow> zerolist_reverse s = Some s)"
proof (intro conjI impI)
  assume r: "ring s ns"
  show "(zerolist_reverse s \<bind> zerolist_reverse) = Some s" using reverse_twice [OF r] .
  then show "(zerolist_reverse s \<bind> zerolist_reverse \<bind> ZEROLIST_FOR_EACH) = Some ns"
    using for_each_ring [OF r] by simp
next
  assume a: "ring s ns \<and> 2 \<le> length ns"
  then have r: "ring s ns" and n: "2 \<le> length ns" by simp_all
  have h: "head (lst s) \<noteq> 0" using r n by (auto simp: ring_def split: if_splits)
  let ?s' = "(reversed s ns)\<lparr>lst := (lst s)\<lparr>head := last ns\<rparr>\<rparr>"
  have 1: "zerolist_reverse s = Some ?s'" using reverse_ring [OF r n] .
  have 2: "ring ?s' (rev ns)" using ring_reversed [OF r h] .
  have 3: "head (lst ?s') = prev (mem s (head (lst s)))"
    using ring_last_prev [OF r h] by simp
  have 4: "ZEROLIST_FOR_EACH ?s' = Some (rev ns)" using for_each_ring [OF 2] .
  have 5: "payloads ?s' (rev ns) = rev (payloads s ns)"
    by (simp add: payloads_def rev_map)
  show "\<exists>s'. zerolist_reverse s = Some s' \<and>
            head (lst s') = prev (mem s (head (lst s))) \<and>
            ring s' (rev ns) \<and> ZEROLIST_FOR_EACH s' = Some (rev ns) \<and>
            payloads s' (rev ns) = rev (payloads s ns)"
    using 1 2 3 4 5 by blast
next
  assume "ring s ns \<and> length ns \<le> 1"
  then show "zerolist_reverse s = Some s" using reverse_small by blast
qed

theorem C7_reverse_witness:
  "ring abc_state [1024, 1056, 1088] \<and> 2 \<le> length [1024::nat, 1056, 1088] \<and>
   (zerolist_reverse abc_state \<bind> zerolist_reverse) = Some abc_state \<and>
   (\<exists>s'. zerolist_reverse abc_state = Some s' \<and> head (lst s') = 1088 \<and>
         ZEROLIST_FOR_EACH s' = Some [1088, 1056, 1024] \<and>
         payloads s' [1088, 1056, 1024] = [33, 22, 11]) \<and>
   ring blank_state [] \<and> length ([]::nat list) \<le> 1 \<and>
   zerolist_reverse blank_state = Some blank_state"
proof -
  have a: "ring abc_state [1024, 1056, 1088] \<and> 2 \<le> length [1024::nat, 1056, 1088]"
    by (simp add: abc_state_def ring_def)
  have b: "ring blank_state [] \<and> length ([]::nat list) \<le> 1"
    by (simp add: blank_state_def ring_def)
  have v: "prev (mem abc_state (head (lst abc_state))) = 1088"
    "rev (payloads abc_state [1024, 1056, 1088]) = [33, 22, 11]"
    by (simp_all add: abc_state_def payloads_def)
  show ?thesis
    using a b v C7_reverse [of abc_state "[1024, 1056, 1088]"] C7_reverse [of blank_state "[]"]
    by auto
qed

subsection \<open>Shrinking\<close>

lemma fold_shrink_slot_lst:
  "size_l (lst (fold (shrink_slot cfg) xs s)) = size_l (lst s)"
  "max_nodes (lst (fold (shrink_slot cfg) xs s)) = max_nodes (lst s)"
  "node_buf (lst (fold (shrink_slot cfg) xs s)) = node_buf (lst s)"
  "head (lst (fold (shrink_slot cfg) xs s)) = head (lst s)"
  by (induction xs arbitrary: s) (simp_all add: shrink_slot_def)

text \<open>
  Claim C6 fails where twice the number of live nodes does not fit the index type. With
  16-bit indices, 40000 live nodes and a capacity of 50000, \<^verbatim>\<open>zerolist_shrink_buffer\<close>
  asked for 100 slots computes \<^verbatim>\<open>used_nodes * 2 = 80000\<close>, stores it in a
  \<^verbatim>\<open>ZEROLIST_TYPE\<close> as 14464, and shrinks the arena to 14464 slots, fewer than the 40000
  live nodes, and reports success.
\<close>

theorem C6_shrink_below_live_count:
  "\<exists>s'. zerolist_shrink_buffer cfg_growable crowded_state 100 = Some (True, s') \<and>
        size_l (lst s') = 40000 \<and> max_nodes (lst s') = 14464 \<and>
        max_nodes (lst s') < size_l (lst s')"
proof -
  have z: "ZT cfg_growable (40000 * 2) = 14464"
    by (simp add: ZT_def cfg_growable_def)
  have sz: "zerolist_size cfg_growable crowded_state = Some 40000"
    by (simp add: zerolist_size_def cfg_growable_def crowded_state_def)
  have f: "FAST_ALLOC cfg_growable" by (simp add: cfg_growable_def)
  have l: "lst crowded_state = \<lparr>size_l = 40000, head = 1024, tail = 0, node_buf = 1024,
              max_nodes = 50000, free_top = 10000, free_stack = 4000000\<rparr>"
    "env crowded_state = [1024, 4000000]"
    by (simp_all add: crowded_state_def)
  show ?thesis
    unfolding zerolist_shrink_buffer_def
    using z sz f l
    by (simp add: ZEROLIST_REALLOC_nodes_def ZEROLIST_REALLOC_stack_def
        zerolist_update_node_pointers_def Let_def fold_shrink_slot_lst)
qed

subsection \<open>Slots and their indices\<close>

lemma ptr_index_slot:
  assumes "0 < NODE_SIZE cfg" "i \<le> ZT_MAX cfg"
  shows "ptr_index cfg (b + i * NODE_SIZE cfg) b = i"
proof -
  have "(0::nat) < 2 ^ TYPE_BITS cfg" by simp
  then have lt: "i < 2 ^ TYPE_BITS cfg" using assms(2) unfolding ZT_MAX_def by linarith
  have "(int (b + i * NODE_SIZE cfg) - int b) div int (NODE_SIZE cfg) = int i"
    using assms(1) by simp
  moreover have "int i mod 2 ^ TYPE_BITS cfg = int i"
    using lt by (simp add: zmod_int [symmetric] flip: of_nat_power)
  ultimately show ?thesis by (simp add: ptr_index_def)
qed

lemma slot_inj:
  assumes "0 < NODE_SIZE cfg"
  shows "b + i * NODE_SIZE cfg = b + j * NODE_SIZE cfg \<longleftrightarrow> i = j"
  using assms by simp

lemma slots_at_sel [simp]:
  "length (slots_at cfg b is) = length is"
  "k < length is \<Longrightarrow> slots_at cfg b is ! k = b + is ! k * NODE_SIZE cfg"
  "slots_at cfg b is = [] \<longleftrightarrow> is = []"
  by (simp_all add: slots_at_def)

lemma slots_at_distinct:
  "0 < NODE_SIZE cfg \<Longrightarrow> distinct (slots_at cfg b is) \<longleftrightarrow> distinct is"
  by (simp add: slots_at_def distinct_map inj_on_def)

lemma slots_at_mem:
  "0 < NODE_SIZE cfg \<Longrightarrow> b + i * NODE_SIZE cfg \<in> set (slots_at cfg b is) \<longleftrightarrow> i \<in> set is"
  by (auto simp: slots_at_def)

lemma in_block_slot:
  "0 < NODE_SIZE cfg \<Longrightarrow> in_block cfg b n (b + i * NODE_SIZE cfg) \<longleftrightarrow> i < n"
  by (simp add: in_block_def)

lemma in_blockE:
  assumes "in_block cfg b n x" "0 < NODE_SIZE cfg"
  obtains i where "i < n" "x = b + i * NODE_SIZE cfg"
proof -
  from assms have le: "b \<le> x" and lt: "x < b + n * NODE_SIZE cfg"
    and m: "(x - b) mod NODE_SIZE cfg = 0" by (simp_all add: in_block_def)
  let ?i = "(x - b) div NODE_SIZE cfg"
  have x: "x = b + ?i * NODE_SIZE cfg" using le m by (simp add: mod_eq_0_iff_dvd)
  have "?i * NODE_SIZE cfg < n * NODE_SIZE cfg" using lt x by linarith
  then have "?i < n" by simp
  then show ?thesis using x that by blast
qed

subsection \<open>The rebasing loop\<close>

lemma rebased_sel [simp]:
  "lst (rebased cfg s ob nb xs) = lst s" "stk (rebased cfg s ob nb xs) = stk s"
  "env (rebased cfg s ob nb xs) = env s" "freed (rebased cfg s ob nb xs) = freed s"
  "mem (rebased cfg s ob nb xs) x =
     (if x \<in> set xs
      then (mem s x)\<lparr>prev := rebase_ptr cfg ob nb (prev (mem s x)),
                     next := rebase_ptr cfg ob nb (next (mem s x))\<rparr>
      else mem s x)"
  by (simp_all add: rebased_def)

lemma rebased_Nil [simp]: "rebased cfg s ob nb [] = s"
  by (simp add: rebased_def)

lemma rebased_step:
  assumes "c \<notin> set xs"
  shows "wr_next (wr_prev (rebased cfg s ob nb xs) c
                    (nb + ptr_index cfg (prev (mem (rebased cfg s ob nb xs) c)) ob * NODE_SIZE cfg)) c
           (nb + ptr_index cfg (next (mem (rebased cfg s ob nb xs) c)) ob * NODE_SIZE cfg)
         = rebased cfg s ob nb (xs @ [c])"
  using assms
  by (auto simp: rebased_def wr_prev_def wr_next_def rebase_ptr_def fun_eq_iff)

lemma pred_mod:
  assumes "k < (n::nat)"
  shows "(k + n - 1) mod n < n" "Suc ((k + n - 1) mod n) mod n = k"
proof -
  show "(k + n - 1) mod n < n" using assms by simp
  show "Suc ((k + n - 1) mod n) mod n = k"
  proof (cases k)
    case 0
    then show ?thesis using assms by simp
  next
    case (Suc j)
    then have "(k + n - 1) mod n = j" using assms by simp
    then show ?thesis using Suc assms by simp
  qed
qed

lemma suc_mod_lt: "k < (n::nat) \<Longrightarrow> Suc k mod n < n"
  by simp

lemma update_loop_ring:
  assumes sz: "0 < NODE_SIZE cfg"
    and d: "distinct is" and b: "\<forall>i\<in>set is. i \<le> ZT_MAX cfg \<and> i < new_size"
    and hd: "head (lst t) = nb + is ! 0 * NODE_SIZE cfg"
    and nx: "map (\<lambda>a. next (mem t a)) (slots_at cfg nb is) = rotate1 (slots_at cfg ob is)"
    and pv: "map (\<lambda>a. prev (mem t a)) (rotate1 (slots_at cfg nb is)) = slots_at cfg ob is"
  shows "k < length is \<Longrightarrow>
         update_node_pointers_loop cfg ob nb new_size
           (rebased cfg t ob nb (take k (slots_at cfg nb is))) (nb + is ! k * NODE_SIZE cfg)
         = Some (rebased cfg t ob nb (slots_at cfg nb is))"
proof (induction "length is - k" arbitrary: k)
  case 0
  then show ?case by simp
next
  case (Suc m)
  let ?n = "length is"
  let ?news = "slots_at cfg nb is" and ?olds = "slots_at cfg ob is"
  let ?tk = "rebased cfg t ob nb (take k ?news)"
  let ?c = "nb + is ! k * NODE_SIZE cfg"
  have k: "k < ?n" using Suc.prems .
  have dn: "distinct ?news" using d sz by (simp add: slots_at_distinct)
  have ck: "?news ! k = ?c" using k by simp
  have notin: "?c \<notin> set (take k ?news)"
    using dn k ck by (metis distinct_take id_take_nth_drop length_map not_distinct_conv_prefix slots_at_def)
  have tk: "take (Suc k) ?news = take k ?news @ [?c]"
    using k ck by (simp add: take_Suc_conv_app_nth)
  have sk: "Suc k mod ?n < ?n" using k by (rule suc_mod_lt)
  have nxt: "next (mem t ?c) = ob + is ! (Suc k mod ?n) * NODE_SIZE cfg"
  proof -
    have "map (\<lambda>a. next (mem t a)) ?news ! k = rotate1 ?olds ! k" using nx by simp
    then show ?thesis using k sk by (simp add: nth_rotate1)
  qed
  have pk: "(k + ?n - 1) mod ?n < ?n" "Suc ((k + ?n - 1) mod ?n) mod ?n = k"
    using pred_mod [OF k] .
  have prv: "prev (mem t ?c) = ob + is ! ((k + ?n - 1) mod ?n) * NODE_SIZE cfg"
  proof -
    have "map (\<lambda>a. prev (mem t a)) (rotate1 ?news) ! ((k + ?n - 1) mod ?n)
            = ?olds ! ((k + ?n - 1) mod ?n)" using pv by simp
    then show ?thesis using pk k by (simp add: nth_rotate1)
  qed
  have bn: "is ! (Suc k mod ?n) \<le> ZT_MAX cfg \<and> is ! (Suc k mod ?n) < new_size"
    using b sk by (meson nth_mem)
  have bp: "is ! ((k + ?n - 1) mod ?n) \<le> ZT_MAX cfg \<and> is ! ((k + ?n - 1) mod ?n) < new_size"
    using b pk(1) by (meson nth_mem)
  have inx: "ptr_index cfg (next (mem ?tk ?c)) ob = is ! (Suc k mod ?n)"
    using notin nxt bn sz by (simp add: ptr_index_slot)
  have ip: "ptr_index cfg (prev (mem ?tk ?c)) ob = is ! ((k + ?n - 1) mod ?n)"
    using notin prv bp sz by (simp add: ptr_index_slot)
  have step: "wr_next (wr_prev ?tk ?c (nb + is ! ((k + ?n - 1) mod ?n) * NODE_SIZE cfg)) ?c
                (nb + is ! (Suc k mod ?n) * NODE_SIZE cfg) = rebased cfg t ob nb (take (Suc k) ?news)"
    using rebased_step [OF notin, of cfg t ob nb] inx ip tk by simp
  have noclamp: "\<not> new_size \<le> is ! (Suc k mod ?n)" "\<not> new_size \<le> is ! ((k + ?n - 1) mod ?n)"
    using bn bp by simp_all
  show ?case
  proof (cases "Suc k = ?n")
    case True
    then have last: "take (Suc k) ?news = ?news" by simp
    have "is ! (Suc k mod ?n) = is ! 0" using True by simp
    then show ?thesis
      using step inx ip noclamp hd last
      by (subst update_node_pointers_loop.simps) (simp add: Let_def)
  next
    case False
    then have lt: "Suc k < ?n" using k by simp
    have "0 < ?n" using lt by auto
    then have ne: "is ! Suc k \<noteq> is ! 0"
      using d lt nth_eq_iff_index_eq [of "is" "Suc k" 0] by simp
    have m: "m = ?n - Suc k" using Suc.hyps(2) by simp
    have sm: "Suc k mod ?n = Suc k" using lt by simp
    show ?thesis
      using Suc.hyps(1) [OF m lt] step inx ip noclamp hd ne sm sz
      by (subst update_node_pointers_loop.simps) (simp add: Let_def)
  qed
qed

lemma ring_cong:
  assumes "head (lst s') = head (lst s)"
    and "\<And>a. a \<in> set ns \<Longrightarrow> next (mem s' a) = next (mem s a)"
    and "\<And>a. a \<in> set ns \<Longrightarrow> prev (mem s' a) = prev (mem s a)"
  shows "ring s' ns \<longleftrightarrow> ring s ns"
proof -
  have e1: "map (\<lambda>a. next (mem s' a)) ns = map (\<lambda>a. next (mem s a)) ns"
    using assms(2) by (intro map_cong) auto
  have e2: "map (\<lambda>a. prev (mem s' a)) (rotate1 ns) = map (\<lambda>a. prev (mem s a)) (rotate1 ns)"
    using assms(3) by (intro map_cong) auto
  show ?thesis unfolding ring_def e1 e2 assms(1) ..
qed

lemma slots_at_hd: "is \<noteq> [] \<Longrightarrow> hd (slots_at cfg b is) = b + hd is * NODE_SIZE cfg"
  by (simp add: slots_at_def hd_map)

lemma slots_at_rotate1: "rotate1 (slots_at cfg b is) = slots_at cfg b (rotate1 is)"
  by (simp add: slots_at_def rotate1_map)

lemma rebase_slots:
  assumes "0 < NODE_SIZE cfg" "\<forall>i\<in>set is. i \<le> ZT_MAX cfg"
  shows "map (rebase_ptr cfg ob nb) (slots_at cfg ob is) = slots_at cfg nb is"
  using assms by (simp add: slots_at_def rebase_ptr_def ptr_index_slot)

lemma ring_rebased:
  assumes sz: "0 < NODE_SIZE cfg"
    and d: "distinct is" and b: "\<forall>i\<in>set is. i \<le> ZT_MAX cfg" and ne: "is \<noteq> []"
    and nz: "nb \<noteq> 0"
    and hd: "head (lst t) = nb + hd is * NODE_SIZE cfg"
    and nx: "map (\<lambda>a. next (mem t a)) (slots_at cfg nb is) = rotate1 (slots_at cfg ob is)"
    and pv: "map (\<lambda>a. prev (mem t a)) (rotate1 (slots_at cfg nb is)) = slots_at cfg ob is"
  shows "ring (rebased cfg t ob nb (slots_at cfg nb is)) (slots_at cfg nb is)"
proof -
  let ?news = "slots_at cfg nb is" and ?olds = "slots_at cfg ob is"
  let ?t' = "rebased cfg t ob nb ?news"
  have rb: "map (rebase_ptr cfg ob nb) ?olds = ?news" using rebase_slots [OF sz b] .
  have "map (\<lambda>a. next (mem ?t' a)) ?news = map (\<lambda>a. rebase_ptr cfg ob nb (next (mem t a))) ?news"
    by (intro map_cong) auto
  also have "\<dots> = map (rebase_ptr cfg ob nb) (map (\<lambda>a. next (mem t a)) ?news)" by simp
  also have "\<dots> = rotate1 (map (rebase_ptr cfg ob nb) ?olds)" by (simp only: nx rotate1_map)
  finally have 1: "map (\<lambda>a. next (mem ?t' a)) ?news = rotate1 ?news" using rb by simp
  have "map (\<lambda>a. prev (mem ?t' a)) (rotate1 ?news)
          = map (\<lambda>a. rebase_ptr cfg ob nb (prev (mem t a))) (rotate1 ?news)"
    by (intro map_cong) auto
  also have "\<dots> = map (rebase_ptr cfg ob nb) (map (\<lambda>a. prev (mem t a)) (rotate1 ?news))" by simp
  also have "\<dots> = ?news" by (simp only: pv rb)
  finally have 2: "map (\<lambda>a. prev (mem ?t' a)) (rotate1 ?news) = ?news" .
  have 3: "0 \<notin> set ?news" using nz by (auto simp: slots_at_def)
  have 4: "distinct ?news" using d sz by (simp add: slots_at_distinct)
  have 5: "head (lst ?t') \<noteq> 0" using hd nz by simp
  show ?thesis
    using 1 2 3 4 5 ne hd by (simp add: ring_def slots_at_hd)
qed

lemma update_node_pointers_moved:
  assumes sz: "0 < NODE_SIZE cfg"
    and d: "distinct is" and b: "\<forall>i\<in>set is. i \<le> ZT_MAX cfg \<and> i < new_size" and ne: "is \<noteq> []"
    and mv: "nb \<noteq> ob"
    and hd: "head (lst t) = ob + hd is * NODE_SIZE cfg" and hz: "head (lst t) \<noteq> 0"
    and nx: "map (\<lambda>a. next (mem t a)) (slots_at cfg nb is) = rotate1 (slots_at cfg ob is)"
    and pv: "map (\<lambda>a. prev (mem t a)) (rotate1 (slots_at cfg nb is)) = slots_at cfg ob is"
  shows "zerolist_update_node_pointers cfg t ob nb old_size new_size =
           Some (rebased cfg (t\<lparr>lst := (lst t)\<lparr>node_buf := nb, head := nb + hd is * NODE_SIZE cfg\<rparr>\<rparr>)
                   ob nb (slots_at cfg nb is))"
proof -
  let ?t2 = "t\<lparr>lst := (lst t)\<lparr>node_buf := nb, head := nb + hd is * NODE_SIZE cfg\<rparr>\<rparr>"
  have l0: "0 < length is" using ne by simp
  have h0: "hd is = is ! 0" using ne by (simp add: hd_conv_nth)
  have hb: "hd is \<le> ZT_MAX cfg" using b ne by simp
  have hi: "ptr_index cfg (head (lst t)) ob = hd is"
    using hd hb sz by (simp add: ptr_index_slot)
  have "update_node_pointers_loop cfg ob nb new_size
          (rebased cfg ?t2 ob nb (take 0 (slots_at cfg nb is))) (nb + is ! 0 * NODE_SIZE cfg)
        = Some (rebased cfg ?t2 ob nb (slots_at cfg nb is))"
    using sz d b nx pv h0 by (intro update_loop_ring [OF _ _ _ _ _ _ l0]) simp_all
  then show ?thesis
    using mv hz hi h0 by (simp add: zerolist_update_node_pointers_def Let_def)
qed

subsection \<open>The loop over the new slots\<close>

lemma expand_slot_fast_keeps:
  "node_buf (lst (expand_slot_fast cfg i s)) = node_buf (lst s)"
  "max_nodes (lst (expand_slot_fast cfg i s)) = max_nodes (lst s)"
  "head (lst (expand_slot_fast cfg i s)) = head (lst s)"
  "tail (lst (expand_slot_fast cfg i s)) = tail (lst s)"
  "size_l (lst (expand_slot_fast cfg i s)) = size_l (lst s)"
  "free_stack (lst (expand_slot_fast cfg i s)) = free_stack (lst s)"
  "env (expand_slot_fast cfg i s) = env s"
  "freed (expand_slot_fast cfg i s) = freed s"
  "next (mem (expand_slot_fast cfg i s) x) = next (mem s x)"
  "prev (mem (expand_slot_fast cfg i s) x) = prev (mem s x)"
  "data (mem (expand_slot_fast cfg i s) x) = data (mem s x)"
  by (simp_all add: expand_slot_fast_def Let_def)

lemma expand_slot_fast_sel:
  "free_top (lst (expand_slot_fast cfg i s)) = ZT cfg (Suc (free_top (lst s)))"
  "stk (expand_slot_fast cfg i s) j = (if j = free_top (lst s) then i else stk s j)"
  "in_use (mem (expand_slot_fast cfg i s) x) =
     (in_use (mem s x) \<and> x \<noteq> node_buf (lst s) + i * NODE_SIZE cfg)"
  by (simp_all add: expand_slot_fast_def Let_def slot_def)

lemma fold_expand_slot_fast_keeps:
  "node_buf (lst (fold (expand_slot_fast cfg) xs s)) = node_buf (lst s)"
  "max_nodes (lst (fold (expand_slot_fast cfg) xs s)) = max_nodes (lst s)"
  "head (lst (fold (expand_slot_fast cfg) xs s)) = head (lst s)"
  "tail (lst (fold (expand_slot_fast cfg) xs s)) = tail (lst s)"
  "size_l (lst (fold (expand_slot_fast cfg) xs s)) = size_l (lst s)"
  "free_stack (lst (fold (expand_slot_fast cfg) xs s)) = free_stack (lst s)"
  "env (fold (expand_slot_fast cfg) xs s) = env s"
  "freed (fold (expand_slot_fast cfg) xs s) = freed s"
  "next (mem (fold (expand_slot_fast cfg) xs s) x) = next (mem s x)"
  "prev (mem (fold (expand_slot_fast cfg) xs s) x) = prev (mem s x)"
  "data (mem (fold (expand_slot_fast cfg) xs s) x) = data (mem s x)"
  by (induction xs arbitrary: s) (simp_all add: expand_slot_fast_keeps)

lemma fold_expand_slot_fast_range:
  assumes sz: "0 < NODE_SIZE cfg" and ab: "a \<le> b" and top: "free_top (lst s) + (b - a) \<le> ZT_MAX cfg"
  shows "free_top (lst (fold (expand_slot_fast cfg) [a..<b] s)) = free_top (lst s) + (b - a) \<and>
         (\<forall>j. stk (fold (expand_slot_fast cfg) [a..<b] s) j =
               (if free_top (lst s) \<le> j \<and> j < free_top (lst s) + (b - a)
                then a + (j - free_top (lst s)) else stk s j)) \<and>
         (\<forall>i. in_use (mem (fold (expand_slot_fast cfg) [a..<b] s) (node_buf (lst s) + i * NODE_SIZE cfg)) =
               (in_use (mem s (node_buf (lst s) + i * NODE_SIZE cfg)) \<and> \<not> (a \<le> i \<and> i < b)))"
  using ab top
proof (induction b)
  case 0
  then show ?case by simp
next
  case (Suc b)
  show ?case
  proof (cases "a = Suc b")
    case True
    then show ?thesis by simp
  next
    case False
    then have ab: "a \<le> b" using Suc.prems(1) by simp
    have top: "free_top (lst s) + (b - a) \<le> ZT_MAX cfg" using Suc.prems(2) by simp
    let ?u = "fold (expand_slot_fast cfg) [a..<b] s"
    note ih = Suc.IH [OF ab top]
    have ft: "free_top (lst ?u) = free_top (lst s) + (b - a)" using ih by simp
    have z: "ZT cfg (Suc (free_top (lst s) + (b - a))) = Suc (free_top (lst s) + (b - a))"
      using Suc.prems(2) ab by (intro ZT_id) simp
    have nb: "node_buf (lst ?u) = node_buf (lst s)" by (simp add: fold_expand_slot_fast_keeps)
    have f: "fold (expand_slot_fast cfg) [a..<Suc b] s = expand_slot_fast cfg b ?u"
      using ab by simp
    have d: "Suc b - a = Suc (b - a)" using ab by simp
    have 1: "free_top (lst (expand_slot_fast cfg b ?u)) = free_top (lst s) + Suc (b - a)"
      using ft z by (simp add: expand_slot_fast_sel)
    have 2: "stk (expand_slot_fast cfg b ?u) j =
               (if free_top (lst s) \<le> j \<and> j < free_top (lst s) + Suc (b - a)
                then a + (j - free_top (lst s)) else stk s j)" for j
      using ih ft ab by (auto simp: expand_slot_fast_sel)
    have 3: "in_use (mem (expand_slot_fast cfg b ?u) (node_buf (lst s) + i * NODE_SIZE cfg)) =
               (in_use (mem s (node_buf (lst s) + i * NODE_SIZE cfg)) \<and> \<not> (a \<le> i \<and> i < Suc b))" for i
      using ih nb sz ab by (auto simp: expand_slot_fast_sel)
    show ?thesis
      unfolding f d using 1 2 3 by blast
  qed
qed

subsection \<open>Growth when the allocator grants both requests\<close>

lemma ring_next_in:
  assumes "ring s ns" "a \<in> set ns"
  shows "next (mem s a) \<in> set ns"
proof -
  have h: "head (lst s) \<noteq> 0" using assms by (auto simp: ring_def split: if_splits)
  have "set (map (\<lambda>a. next (mem s a)) ns) = set (rotate1 ns)"
    using ring_nonempty(5) [OF assms(1) h] by simp
  then show ?thesis using assms(2) by auto
qed

lemma ring_prev_in:
  assumes "ring s ns" "a \<in> set ns"
  shows "prev (mem s a) \<in> set ns"
proof -
  have h: "head (lst s) \<noteq> 0" using assms by (auto simp: ring_def split: if_splits)
  have "set (map (\<lambda>a. prev (mem s a)) (rotate1 ns)) = set ns"
    using ring_nonempty(6) [OF assms(1) h] by simp
  then show ?thesis using assms(2) by auto
qed

lemma rebase_ptr_slot:
  assumes "0 < NODE_SIZE cfg" "p \<in> set (slots_at cfg ob is)" "\<forall>i\<in>set is. i \<le> ZT_MAX cfg"
  shows "rebase_ptr cfg ob nb p = nb + (p - ob)" "rebase_ptr cfg ob nb p \<in> set (slots_at cfg nb is)"
proof -
  from assms(2) obtain j where j: "j \<in> set is" "p = ob + j * NODE_SIZE cfg"
    by (auto simp: slots_at_def)
  then have "rebase_ptr cfg ob nb p = nb + j * NODE_SIZE cfg"
    using assms(1,3) by (simp add: rebase_ptr_def ptr_index_slot)
  then show "rebase_ptr cfg ob nb p = nb + (p - ob)"
    "rebase_ptr cfg ob nb p \<in> set (slots_at cfg nb is)"
    using j by (auto simp: slots_at_def)
qed

lemma realloc_nodes_granted:
  assumes "env s = nb # rest" "nb \<noteq> 0"
  shows "fst (ZEROLIST_REALLOC_nodes cfg s ob old_n new_n) = nb"
    "lst (snd (ZEROLIST_REALLOC_nodes cfg s ob old_n new_n)) = lst s"
    "stk (snd (ZEROLIST_REALLOC_nodes cfg s ob old_n new_n)) = stk s"
    "env (snd (ZEROLIST_REALLOC_nodes cfg s ob old_n new_n)) = rest"
    "freed (snd (ZEROLIST_REALLOC_nodes cfg s ob old_n new_n)) = freed s"
    "mem (snd (ZEROLIST_REALLOC_nodes cfg s ob old_n new_n)) x =
       (if nb \<noteq> ob \<and> in_block cfg nb (min old_n new_n) x then mem s (ob + (x - nb)) else mem s x)"
  using assms by (simp_all add: ZEROLIST_REALLOC_nodes_def)

lemma realloc_nodes_slot:
  assumes "env s = nb # rest" "nb \<noteq> 0" "0 < NODE_SIZE cfg" "i < min old_n new_n"
  shows "mem (snd (ZEROLIST_REALLOC_nodes cfg s ob old_n new_n)) (nb + i * NODE_SIZE cfg)
           = mem s (ob + i * NODE_SIZE cfg)"
  using assms by (simp add: realloc_nodes_granted in_block_slot)

lemma update_granted:
  assumes sz: "0 < NODE_SIZE cfg"
    and r: "ring s (slots_at cfg ob is)"
    and b: "\<forall>i\<in>set is. i < min old_n new_n \<and> i \<le> ZT_MAX cfg"
    and e: "env s = nb # rest" and nbz: "nb \<noteq> 0"
  shows "\<exists>t. zerolist_update_node_pointers cfg (snd (ZEROLIST_REALLOC_nodes cfg s ob old_n new_n))
                ob nb old_n new_n = Some t \<and>
             lst t = (lst s)\<lparr>node_buf := nb,
                             head := (if is = [] then 0 else nb + hd is * NODE_SIZE cfg)\<rparr> \<and>
             env t = rest \<and> freed t = freed s \<and> stk t = stk s \<and>
             ring t (slots_at cfg nb is) \<and>
             (\<forall>i < min old_n new_n.
                data (mem t (nb + i * NODE_SIZE cfg)) = data (mem s (ob + i * NODE_SIZE cfg)) \<and>
                in_use (mem t (nb + i * NODE_SIZE cfg)) = in_use (mem s (ob + i * NODE_SIZE cfg)) \<and>
                index (mem t (nb + i * NODE_SIZE cfg)) = index (mem s (ob + i * NODE_SIZE cfg))) \<and>
             (\<forall>i\<in>set is.
                prev (mem t (nb + i * NODE_SIZE cfg)) = nb + (prev (mem s (ob + i * NODE_SIZE cfg)) - ob) \<and>
                next (mem t (nb + i * NODE_SIZE cfg)) = nb + (next (mem s (ob + i * NODE_SIZE cfg)) - ob))"
proof -
  let ?olds = "slots_at cfg ob is" and ?news = "slots_at cfg nb is"
  let ?s1 = "snd (ZEROLIST_REALLOC_nodes cfg s ob old_n new_n)"
  note g = realloc_nodes_granted [OF e nbz, of cfg ob old_n new_n]
  have cp: "mem ?s1 (nb + i * NODE_SIZE cfg) = mem s (ob + i * NODE_SIZE cfg)"
    if "i < min old_n new_n" for i
    using realloc_nodes_slot [OF e nbz sz that] .
  have bz: "\<forall>i\<in>set is. i \<le> ZT_MAX cfg" using b by simp
  show ?thesis
  proof (cases "is = []")
    case True
    then have h0: "head (lst s) = 0" using r by (auto simp: ring_def slots_at_def split: if_splits)
    let ?t = "?s1\<lparr>lst := (lst ?s1)\<lparr>node_buf := nb\<rparr>\<rparr>"
    have u: "zerolist_update_node_pointers cfg ?s1 ob nb old_n new_n = Some ?t"
      using h0 g by (simp add: zerolist_update_node_pointers_def Let_def)
    have "ring ?t ?news" using True h0 g by (simp add: ring_def slots_at_def)
    moreover have "lst ?t = (lst s)\<lparr>node_buf := nb, head := 0\<rparr>"
      using g h0 by simp
    ultimately show ?thesis using u g True cp by simp
  next
    case False
    have h: "head (lst s) \<noteq> 0" using r False by (auto simp: ring_def slots_at_def split: if_splits)
    have hd: "head (lst s) = ob + hd is * NODE_SIZE cfg"
      using ring_nonempty(2) [OF r h] False by (simp add: slots_at_hd)
    have d: "distinct is" using ring_nonempty(3) [OF r h] sz by (simp add: slots_at_distinct)
    have nxs: "map (\<lambda>a. next (mem s a)) ?olds = rotate1 ?olds"
      and pvs: "map (\<lambda>a. prev (mem s a)) (rotate1 ?olds) = ?olds"
      using ring_nonempty(5,6) [OF r h] by simp_all
    have inr: "prev (mem s (ob + i * NODE_SIZE cfg)) \<in> set ?olds"
      "next (mem s (ob + i * NODE_SIZE cfg)) \<in> set ?olds" if "i \<in> set is" for i
      using ring_prev_in [OF r] ring_next_in [OF r] that sz by (simp_all add: slots_at_mem)
    show ?thesis
    proof (cases "nb = ob")
      case True
      let ?t = "?s1\<lparr>lst := (lst ?s1)\<lparr>node_buf := nb\<rparr>\<rparr>"
      have u: "zerolist_update_node_pointers cfg ?s1 ob nb old_n new_n = Some ?t"
        using True by (simp add: zerolist_update_node_pointers_def Let_def)
      have m: "mem ?t = mem s" using True g by (simp add: fun_eq_iff)
      have "ring ?t ?olds \<longleftrightarrow> ring s ?olds"
        using g m by (intro ring_cong) simp_all
      then have rt: "ring ?t ?news" using r True by simp
      have lt: "lst ?t = (lst s)\<lparr>node_buf := nb, head := nb + hd is * NODE_SIZE cfg\<rparr>"
        using g hd True by simp
      have lk: "prev (mem s (ob + i * NODE_SIZE cfg)) = nb + (prev (mem s (ob + i * NODE_SIZE cfg)) - ob) \<and>
                next (mem s (ob + i * NODE_SIZE cfg)) = nb + (next (mem s (ob + i * NODE_SIZE cfg)) - ob)"
        if "i \<in> set is" for i
        using inr [OF that] True by (auto simp: slots_at_def)
      show ?thesis using u rt lt g m False True lk by auto
    next
      case mv: False
      let ?t1 = "?s1\<lparr>lst := (lst ?s1)\<lparr>node_buf := nb, head := nb + hd is * NODE_SIZE cfg\<rparr>\<rparr>"
      let ?t = "rebased cfg ?t1 ob nb ?news"
      have bi: "\<forall>i\<in>set is. i < min old_n new_n" using b by simp
      have "map (\<lambda>a. next (mem ?s1 a)) ?news = map (\<lambda>a. next (mem s a)) ?olds"
        using bi cp by (simp add: slots_at_def)
      then have nx: "map (\<lambda>a. next (mem ?s1 a)) ?news = rotate1 ?olds" using nxs by simp
      have bi': "\<forall>i\<in>set (rotate1 is). i < min old_n new_n" using bi by simp
      have "map (\<lambda>a. prev (mem ?s1 a)) (rotate1 ?news) = map (\<lambda>a. prev (mem s a)) (rotate1 ?olds)"
        unfolding slots_at_rotate1 using bi' cp by (simp add: slots_at_def)
      then have pv: "map (\<lambda>a. prev (mem ?s1 a)) (rotate1 ?news) = ?olds" using pvs by simp
      have bn: "\<forall>i\<in>set is. i \<le> ZT_MAX cfg \<and> i < new_n" using b by simp
      have u: "zerolist_update_node_pointers cfg ?s1 ob nb old_n new_n = Some ?t"
        using sz d bn False mv hd h nx pv g
        by (intro update_node_pointers_moved) simp_all
      have rt: "ring ?t ?news"
        using sz d bz False nbz nx pv by (intro ring_rebased) simp_all
      have lt: "lst ?t = (lst s)\<lparr>node_buf := nb, head := nb + hd is * NODE_SIZE cfg\<rparr>"
        using g by simp
      have keep: "data (mem ?t x) = data (mem ?s1 x)" "in_use (mem ?t x) = in_use (mem ?s1 x)"
        "index (mem ?t x) = index (mem ?s1 x)" for x
        by simp_all
      have lk: "prev (mem ?t (nb + i * NODE_SIZE cfg)) = nb + (prev (mem s (ob + i * NODE_SIZE cfg)) - ob) \<and>
                next (mem ?t (nb + i * NODE_SIZE cfg)) = nb + (next (mem s (ob + i * NODE_SIZE cfg)) - ob)"
        if "i \<in> set is" for i
      proof -
        have "nb + i * NODE_SIZE cfg \<in> set ?news" using that sz by (simp add: slots_at_mem)
        moreover have "mem ?s1 (nb + i * NODE_SIZE cfg) = mem s (ob + i * NODE_SIZE cfg)"
          using cp bi that by simp
        ultimately show ?thesis
          using rebase_ptr_slot(1) [OF sz inr(1) [OF that] bz]
            rebase_ptr_slot(1) [OF sz inr(2) [OF that] bz]
          by simp
      qed
      show ?thesis
        using u rt lt g False keep cp lk by (intro exI [of _ ?t]) simp
    qed
  qed
qed

lemma expand_buffer_granted:
  assumes sz: "0 < NODE_SIZE cfg" and fa: "FAST_ALLOC cfg"
    and gt: "max_nodes (lst s) < new_size" and le: "new_size \<le> ZT_MAX cfg"
    and ft: "free_top (lst s) \<le> max_nodes (lst s)"
    and r: "ring s (slots_at cfg (node_buf (lst s)) is)"
    and b: "\<forall>i\<in>set is. i < max_nodes (lst s)"
    and e: "env s = nb # sb # rest" and nbz: "nb \<noteq> 0" and sbz: "sb \<noteq> 0"
  shows "\<exists>s'. zerolist_expand_buffer cfg s new_size = Some (True, s') \<and>
     lst s' = (lst s)\<lparr>node_buf := nb,
                      head := (if is = [] then 0 else nb + hd is * NODE_SIZE cfg),
                      free_stack := sb,
                      free_top := free_top (lst s) + (new_size - max_nodes (lst s)),
                      max_nodes := new_size\<rparr> \<and>
     env s' = rest \<and> freed s' = freed s \<and>
     ring s' (slots_at cfg nb is) \<and>
     (\<forall>i < max_nodes (lst s).
        data (mem s' (nb + i * NODE_SIZE cfg)) = data (mem s (node_buf (lst s) + i * NODE_SIZE cfg)) \<and>
        in_use (mem s' (nb + i * NODE_SIZE cfg)) = in_use (mem s (node_buf (lst s) + i * NODE_SIZE cfg))) \<and>
     (\<forall>i. max_nodes (lst s) \<le> i \<and> i < new_size \<longrightarrow> \<not> in_use (mem s' (nb + i * NODE_SIZE cfg))) \<and>
     (\<forall>j. stk s' j =
          (if free_top (lst s) \<le> j \<and> j < free_top (lst s) + (new_size - max_nodes (lst s))
           then max_nodes (lst s) + (j - free_top (lst s)) else stk s j)) \<and>
     (\<forall>i\<in>set is.
        prev (mem s' (nb + i * NODE_SIZE cfg)) =
          nb + (prev (mem s (node_buf (lst s) + i * NODE_SIZE cfg)) - node_buf (lst s)) \<and>
        next (mem s' (nb + i * NODE_SIZE cfg)) =
          nb + (next (mem s (node_buf (lst s) + i * NODE_SIZE cfg)) - node_buf (lst s)))"
proof -
  let ?ob = "node_buf (lst s)" and ?old = "max_nodes (lst s)"
  let ?H = "if is = [] then 0 else nb + hd is * NODE_SIZE cfg"
  let ?news = "slots_at cfg nb is"
  let ?s1 = "snd (ZEROLIST_REALLOC_nodes cfg s ?ob ?old new_size)"
  have mn: "min ?old new_size = ?old" using gt by simp
  have bb: "\<forall>i\<in>set is. i < min ?old new_size \<and> i \<le> ZT_MAX cfg"
    using b gt le by auto
  have e1: "env s = nb # (sb # rest)" using e .
  from update_granted [OF sz r bb e1 nbz]
  obtain t where u: "zerolist_update_node_pointers cfg ?s1 ?ob nb ?old new_size = Some t"
    and lt: "lst t = (lst s)\<lparr>node_buf := nb, head := ?H\<rparr>"
    and et: "env t = sb # rest" and frt: "freed t = freed s" and st: "stk t = stk s"
    and rt: "ring t ?news"
    and kp: "\<forall>i < ?old.
                data (mem t (nb + i * NODE_SIZE cfg)) = data (mem s (?ob + i * NODE_SIZE cfg)) \<and>
                in_use (mem t (nb + i * NODE_SIZE cfg)) = in_use (mem s (?ob + i * NODE_SIZE cfg)) \<and>
                index (mem t (nb + i * NODE_SIZE cfg)) = index (mem s (?ob + i * NODE_SIZE cfg))"
    and lk: "\<forall>i\<in>set is.
                prev (mem t (nb + i * NODE_SIZE cfg)) = nb + (prev (mem s (?ob + i * NODE_SIZE cfg)) - ?ob) \<and>
                next (mem t (nb + i * NODE_SIZE cfg)) = nb + (next (mem s (?ob + i * NODE_SIZE cfg)) - ?ob)"
    unfolding mn by blast
  let ?u = "t\<lparr>env := rest, lst := (lst t)\<lparr>free_stack := sb\<rparr>\<rparr>"
  let ?f = "fold (expand_slot_fast cfg) [?old..<new_size] ?u"
  let ?s' = "?f\<lparr>lst := (lst ?f)\<lparr>max_nodes := new_size\<rparr>\<rparr>"
  have g: "fst (ZEROLIST_REALLOC_nodes cfg s ?ob ?old new_size) = nb"
    using realloc_nodes_granted(1) [OF e1 nbz] .
  have rs: "ZEROLIST_REALLOC_stack t = (sb, t\<lparr>env := rest\<rparr>)"
    using et by (simp add: ZEROLIST_REALLOC_stack_def)
  have ex: "zerolist_expand_buffer cfg s new_size = Some (True, ?s')"
    using gt g nbz u rs sbz fa
    by (simp add: zerolist_expand_buffer_def Let_def split_beta)
  have ftu: "free_top (lst ?u) + (new_size - ?old) \<le> ZT_MAX cfg"
    using lt ft gt le by simp
  have ab: "?old \<le> new_size" using gt by simp
  note rg = fold_expand_slot_fast_range [OF sz ab ftu]
  note kf = fold_expand_slot_fast_keeps [of cfg "[?old..<new_size]" ?u]
  have nbu: "node_buf (lst ?u) = nb" using lt by simp
  have l': "lst ?s' = (lst s)\<lparr>node_buf := nb, head := ?H, free_stack := sb,
                      free_top := free_top (lst s) + (new_size - ?old), max_nodes := new_size\<rparr>"
  proof -
    have "free_top (lst ?f) = free_top (lst s) + (new_size - ?old)" using rg lt by simp
    moreover have "node_buf (lst ?f) = nb" "head (lst ?f) = ?H" "tail (lst ?f) = tail (lst s)"
      "size_l (lst ?f) = size_l (lst s)" "free_stack (lst ?f) = sb"
      using kf lt by simp_all
    ultimately show ?thesis by (intro Zerolist.equality) simp_all
  qed
  have r': "ring ?s' ?news"
  proof -
    have "ring ?s' ?news \<longleftrightarrow> ring t ?news"
      using kf by (intro ring_cong) simp_all
    then show ?thesis using rt by simp
  qed
  have k': "\<forall>i < ?old.
        data (mem ?s' (nb + i * NODE_SIZE cfg)) = data (mem s (?ob + i * NODE_SIZE cfg)) \<and>
        in_use (mem ?s' (nb + i * NODE_SIZE cfg)) = in_use (mem s (?ob + i * NODE_SIZE cfg))"
    using kf(11) rg nbu kp by simp
  have n': "\<forall>i. ?old \<le> i \<and> i < new_size \<longrightarrow> \<not> in_use (mem ?s' (nb + i * NODE_SIZE cfg))"
    using rg nbu by simp
  have s': "\<forall>j. stk ?s' j =
          (if free_top (lst s) \<le> j \<and> j < free_top (lst s) + (new_size - ?old)
           then ?old + (j - free_top (lst s)) else stk s j)"
    using rg lt st by simp
  have lk': "\<forall>i\<in>set is.
        prev (mem ?s' (nb + i * NODE_SIZE cfg)) = nb + (prev (mem s (?ob + i * NODE_SIZE cfg)) - ?ob) \<and>
        next (mem ?s' (nb + i * NODE_SIZE cfg)) = nb + (next (mem s (?ob + i * NODE_SIZE cfg)) - ?ob)"
    using kf(9,10) lk by simp
  have ef: "env ?s' = rest" "freed ?s' = freed s" using kf(7,8) frt by simp_all
  show ?thesis
    using ex l' ef r' k' n' s' lk' by (intro exI [of _ ?s']) (simp only: simp_thms)
qed

lemma foreach_scan_grown:
  assumes c: "\<not> USE_MALLOC cfg" "\<not> STATIC_FALLBACK_MALLOC cfg"
    and nz: "node_buf (lst s) \<noteq> 0" "node_buf (lst s') \<noteq> 0"
    and le: "max_nodes (lst s) \<le> max_nodes (lst s')"
    and k: "\<forall>i < max_nodes (lst s).
        data (mem s' (slot cfg s' i)) = data (mem s (slot cfg s i)) \<and>
        in_use (mem s' (slot cfg s' i)) = in_use (mem s (slot cfg s i))"
    and n: "\<forall>i. max_nodes (lst s) \<le> i \<and> i < max_nodes (lst s') \<longrightarrow> \<not> in_use (mem s' (slot cfg s' i))"
  shows "zerolist_foreach cfg s' = zerolist_foreach cfg s"
proof -
  let ?P = "\<lambda>t i. NODE_IS_IN_USE t (slot cfg t i)"
  have "[0..<max_nodes (lst s) + (max_nodes (lst s') - max_nodes (lst s))]
          = [0..<max_nodes (lst s)] @
            [max_nodes (lst s)..<max_nodes (lst s) + (max_nodes (lst s') - max_nodes (lst s))]"
    by (rule upt_add_eq_append) simp
  then have sp: "[0..<max_nodes (lst s')] = [0..<max_nodes (lst s)] @ [max_nodes (lst s)..<max_nodes (lst s')]"
    using le by simp
  have f2: "filter (?P s') [max_nodes (lst s)..<max_nodes (lst s')] = []"
    using n by (auto simp: NODE_IS_IN_USE_def filter_empty_conv)
  have f1: "filter (?P s') [0..<max_nodes (lst s)] = filter (?P s) [0..<max_nodes (lst s)]"
    using k nz by (intro filter_cong) (auto simp: NODE_IS_IN_USE_def slot_def)
  have "map (\<lambda>i. data (mem s' (slot cfg s' i))) (filter (?P s) [0..<max_nodes (lst s)])
        = map (\<lambda>i. data (mem s (slot cfg s i))) (filter (?P s) [0..<max_nodes (lst s)])"
    using k by (intro map_cong) auto
  then show ?thesis
    using c sp f1 f2 by (simp add: zerolist_foreach_def)
qed

text \<open>
  Claim C2. In the growable configuration with the free stack, let the list be a
  well-formed ring whose nodes are the slots \<open>is\<close> of the arena, and let the allocator grant
  the two requests of \<^verbatim>\<open>_zerolist_expand_buffer\<close>, with \<open>nb\<close> for the node buffer (the old
  address or any other one). Then growing to \<open>new_size\<close> succeeds; the traversal from the
  head visits the same slots, now in the buffer at \<open>nb\<close>, with the same payloads in the same
  order, and \<^verbatim>\<open>zerolist_foreach\<close> hands out the same payloads as before; the head and the
  two links of every node are the old ones moved by the distance between the buffers; every
  slot from the old capacity on is free and has been pushed, in ascending order, on the free
  stack. The claim is the instance with three nodes, capacity 4 and \<open>new_size = 8\<close>.
\<close>

theorem C2_grow_keeps_ring:
  assumes "valid_config cfg" "STATIC_DYNAMIC_EXPAND cfg" "FAST_ALLOC cfg"
    and "node_buf (lst s) \<noteq> 0"
    and "max_nodes (lst s) < new_size" "new_size \<le> ZT_MAX cfg"
    and "free_top (lst s) \<le> max_nodes (lst s)"
    and "ring s (slots_at cfg (node_buf (lst s)) is)" "is \<noteq> []"
    and "\<forall>i\<in>set is. i < max_nodes (lst s)"
    and "env s = nb # sb # rest" "nb \<noteq> 0" "sb \<noteq> 0"
  shows "\<exists>s'. zerolist_expand_buffer cfg s new_size = Some (True, s') \<and>
     node_buf (lst s') = nb \<and> max_nodes (lst s') = new_size \<and>
     ZEROLIST_FOR_EACH s' = Some (slots_at cfg nb is) \<and>
     payloads s' (slots_at cfg nb is) = payloads s (slots_at cfg (node_buf (lst s)) is) \<and>
     zerolist_foreach cfg s' = zerolist_foreach cfg s \<and>
     head (lst s') = nb + (head (lst s) - node_buf (lst s)) \<and>
     (\<forall>i\<in>set is.
        prev (mem s' (nb + i * NODE_SIZE cfg)) =
          nb + (prev (mem s (node_buf (lst s) + i * NODE_SIZE cfg)) - node_buf (lst s)) \<and>
        next (mem s' (nb + i * NODE_SIZE cfg)) =
          nb + (next (mem s (node_buf (lst s) + i * NODE_SIZE cfg)) - node_buf (lst s))) \<and>
     free_top (lst s') = free_top (lst s) + (new_size - max_nodes (lst s)) \<and>
     (\<forall>i. max_nodes (lst s) \<le> i \<and> i < new_size \<longrightarrow>
        \<not> in_use (mem s' (nb + i * NODE_SIZE cfg)) \<and>
        stk s' (free_top (lst s) + (i - max_nodes (lst s))) = i)"
proof -
  let ?ob = "node_buf (lst s)" and ?old = "max_nodes (lst s)"
  have sz: "0 < NODE_SIZE cfg" and nm: "\<not> USE_MALLOC cfg" and nf: "\<not> STATIC_FALLBACK_MALLOC cfg"
    using assms(1,2) by (auto simp: valid_config_def)
  from expand_buffer_granted [OF sz assms(3,5,6,7,8,10,11,12,13)]
  obtain s' where ex: "zerolist_expand_buffer cfg s new_size = Some (True, s')"
    and l: "lst s' = (lst s)\<lparr>node_buf := nb,
                      head := (if is = [] then 0 else nb + hd is * NODE_SIZE cfg),
                      free_stack := sb,
                      free_top := free_top (lst s) + (new_size - ?old),
                      max_nodes := new_size\<rparr>"
    and r': "ring s' (slots_at cfg nb is)"
    and k: "\<forall>i < ?old.
        data (mem s' (nb + i * NODE_SIZE cfg)) = data (mem s (?ob + i * NODE_SIZE cfg)) \<and>
        in_use (mem s' (nb + i * NODE_SIZE cfg)) = in_use (mem s (?ob + i * NODE_SIZE cfg))"
    and n: "\<forall>i. ?old \<le> i \<and> i < new_size \<longrightarrow> \<not> in_use (mem s' (nb + i * NODE_SIZE cfg))"
    and st: "\<forall>j. stk s' j =
          (if free_top (lst s) \<le> j \<and> j < free_top (lst s) + (new_size - ?old)
           then ?old + (j - free_top (lst s)) else stk s j)"
    and lk: "\<forall>i\<in>set is.
        prev (mem s' (nb + i * NODE_SIZE cfg)) = nb + (prev (mem s (?ob + i * NODE_SIZE cfg)) - ?ob) \<and>
        next (mem s' (nb + i * NODE_SIZE cfg)) = nb + (next (mem s (?ob + i * NODE_SIZE cfg)) - ?ob)"
    by blast
  have h: "head (lst s) \<noteq> 0"
    using assms(8,9) by (auto simp: ring_def split: if_splits)
  have hd: "head (lst s) = ?ob + hd is * NODE_SIZE cfg"
    using ring_nonempty(2) [OF assms(8) h] assms(9) by (simp add: slots_at_hd)
  have 1: "node_buf (lst s') = nb" "max_nodes (lst s') = new_size"
    "free_top (lst s') = free_top (lst s) + (new_size - ?old)"
    "head (lst s') = nb + (head (lst s) - ?ob)"
    using l hd assms(9) by simp_all
  have 2: "ZEROLIST_FOR_EACH s' = Some (slots_at cfg nb is)" using for_each_ring [OF r'] .
  have 3: "payloads s' (slots_at cfg nb is) = payloads s (slots_at cfg ?ob is)"
    using k assms(10) by (simp add: payloads_def slots_at_def)
  have 4: "zerolist_foreach cfg s' = zerolist_foreach cfg s"
    using nm nf assms(4,5,12) 1 k n by (intro foreach_scan_grown) (simp_all add: slot_def)
  have 5: "\<forall>i. ?old \<le> i \<and> i < new_size \<longrightarrow>
        \<not> in_use (mem s' (nb + i * NODE_SIZE cfg)) \<and>
        stk s' (free_top (lst s) + (i - ?old)) = i"
    using n st by auto
  show ?thesis
    using ex 1 2 3 4 5 lk by (intro exI [of _ s']) (simp only: simp_thms)
qed

theorem C2_grow_keeps_ring_witness:
  "ring abc_state (slots_at cfg_growable 1024 [0, 1, 2]) \<and>
   payloads abc_state (slots_at cfg_growable 1024 [0, 1, 2]) = [11, 22, 33] \<and>
   max_nodes (lst abc_state) = 4 \<and>
   (\<exists>s'. zerolist_expand_buffer cfg_growable (abc_state\<lparr>env := [2048, 9000]\<rparr>) 8 = Some (True, s') \<and>
         node_buf (lst s') = 2048 \<and> max_nodes (lst s') = 8 \<and>
         ZEROLIST_FOR_EACH s' = Some [2048, 2080, 2112] \<and>
         payloads s' [2048, 2080, 2112] = [11, 22, 33]) \<and>
   (\<exists>s'. zerolist_expand_buffer cfg_growable (abc_state\<lparr>env := [1024, 9000]\<rparr>) 8 = Some (True, s') \<and>
         node_buf (lst s') = 1024 \<and> max_nodes (lst s') = 8 \<and>
         ZEROLIST_FOR_EACH s' = Some [1024, 1056, 1088] \<and>
         payloads s' [1024, 1056, 1088] = [11, 22, 33])"
proof -
  have sl: "slots_at cfg_growable 1024 [0, 1, 2] = [1024, 1056, 1088]"
    "slots_at cfg_growable 2048 [0, 1, 2] = [2048, 2080, 2112]"
    by (simp_all add: slots_at_def cfg_growable_def)
  have c: "valid_config cfg_growable" "STATIC_DYNAMIC_EXPAND cfg_growable" "FAST_ALLOC cfg_growable"
    "(8::nat) \<le> ZT_MAX cfg_growable"
    by (simp_all add: valid_config_def cfg_growable_def ZT_MAX_def)
  have a: "node_buf (lst (abc_state\<lparr>env := e\<rparr>)) \<noteq> 0"
    "max_nodes (lst (abc_state\<lparr>env := e\<rparr>)) < 8"
    "free_top (lst (abc_state\<lparr>env := e\<rparr>)) \<le> max_nodes (lst (abc_state\<lparr>env := e\<rparr>))"
    "ring (abc_state\<lparr>env := e\<rparr>) (slots_at cfg_growable (node_buf (lst (abc_state\<lparr>env := e\<rparr>))) [0, 1, 2])"
    "[0::nat, 1, 2] \<noteq> []"
    "\<forall>i\<in>set [0::nat, 1, 2]. i < max_nodes (lst (abc_state\<lparr>env := e\<rparr>))" for e
    by (simp_all add: abc_state_def ring_def slots_at_def cfg_growable_def)
  have r: "ring abc_state (slots_at cfg_growable 1024 [0, 1, 2])"
    "payloads abc_state (slots_at cfg_growable 1024 [0, 1, 2]) = [11, 22, 33]"
    "max_nodes (lst abc_state) = 4"
    by (simp_all add: abc_state_def ring_def slots_at_def cfg_growable_def payloads_def)
  have p: "payloads (abc_state\<lparr>env := e\<rparr>) (slots_at cfg_growable (node_buf (lst (abc_state\<lparr>env := e\<rparr>))) [0, 1, 2])
             = [11, 22, 33]" for e
    by (simp add: abc_state_def slots_at_def cfg_growable_def payloads_def)
  have e1: "env (abc_state\<lparr>env := [2048, 9000]\<rparr>) = 2048 # 9000 # []" "(2048::nat) \<noteq> 0" "(9000::nat) \<noteq> 0"
    and e2: "env (abc_state\<lparr>env := [1024, 9000]\<rparr>) = 1024 # 9000 # []" "(1024::nat) \<noteq> 0"
    by simp_all
  from C2_grow_keeps_ring [OF c(1,2,3) a(1,2) c(4) a(3,4,5,6) e1]
  have m: "\<exists>s'. zerolist_expand_buffer cfg_growable (abc_state\<lparr>env := [2048, 9000]\<rparr>) 8 = Some (True, s') \<and>
         node_buf (lst s') = 2048 \<and> max_nodes (lst s') = 8 \<and>
         ZEROLIST_FOR_EACH s' = Some [2048, 2080, 2112] \<and>
         payloads s' [2048, 2080, 2112] = [11, 22, 33]"
    unfolding p sl by blast
  from C2_grow_keeps_ring [OF c(1,2,3) a(1,2) c(4) a(3,4,5,6) e2 e1(3)]
  have u: "\<exists>s'. zerolist_expand_buffer cfg_growable (abc_state\<lparr>env := [1024, 9000]\<rparr>) 8 = Some (True, s') \<and>
         node_buf (lst s') = 1024 \<and> max_nodes (lst s') = 8 \<and>
         ZEROLIST_FOR_EACH s' = Some [1024, 1056, 1088] \<and>
         payloads s' [1024, 1056, 1088] = [11, 22, 33]"
    unfolding p sl by blast
  show ?thesis using r m u by blast
qed

subsection \<open>Cycles\<close>

lemma ring_cycle:
  "ring s ns \<longleftrightarrow> (if head (lst s) = 0 then ns = [] else cycle s ns \<and> hd ns = head (lst s))"
  by (auto simp: ring_def cycle_def cyc_def)

lemma cyc_rotate1:
  assumes "cyc f g xs"
  shows "cyc f g (rotate1 xs)"
proof -
  have nx: "map f xs = rotate1 xs" and pv: "map g (rotate1 xs) = xs"
    using assms by (simp_all add: cyc_def)
  have "map f (rotate1 xs) = rotate1 (map f xs)" by (simp only: rotate1_map)
  also have "\<dots> = rotate1 (rotate1 xs)" by (simp only: nx)
  finally have 1: "map f (rotate1 xs) = rotate1 (rotate1 xs)" .
  have "map g (rotate1 (rotate1 xs)) = rotate1 (map g (rotate1 xs))" by (simp only: rotate1_map)
  also have "\<dots> = rotate1 xs" by (simp only: pv)
  finally have 2: "map g (rotate1 (rotate1 xs)) = rotate1 xs" .
  show ?thesis using assms 1 2 by (simp add: cyc_def)
qed

lemma cyc_rotate: "cyc f g xs \<Longrightarrow> cyc f g (rotate m xs)"
  by (induction m) (simp_all add: cyc_rotate1)

lemma cyc_cong:
  assumes "\<And>a. a \<in> set xs \<Longrightarrow> f' a = f a" and "\<And>a. a \<in> set xs \<Longrightarrow> g' a = g a"
  shows "cyc f' g' xs \<longleftrightarrow> cyc f g xs"
proof -
  have e1: "map f' xs = map f xs" using assms(1) by (intro map_cong) auto
  have e2: "map g' (rotate1 xs) = map g (rotate1 xs)" using assms(2) by (intro map_cong) auto
  show ?thesis unfolding cyc_def e1 e2 ..
qed

lemma cyc_links:
  assumes "cyc f g (x # rest)"
  shows "f x # map f rest = rest @ [x]" "map g rest @ [g x] = x # rest" "g x = last (x # rest)"
proof -
  show 1: "f x # map f rest = rest @ [x]" and 2: "map g rest @ [g x] = x # rest"
    using assms by (simp_all add: cyc_def)
  from 2 have "last (map g rest @ [g x]) = last (x # rest)" by (rule arg_cong)
  then show "g x = last (x # rest)" by simp
qed

text \<open>Splicing a fresh element in front of the first element of a cycle.\<close>

lemma cyc_insert:
  assumes c: "cyc f g (p # rest)" and fr: "n \<notin> set (p # rest)" "n \<noteq> 0"
  shows "cyc (f(n := p, g p := n)) (g(n := g p, p := n)) (n # p # rest)"
proof -
  obtain ys l where sn: "p # rest = ys @ [l]" by (cases "p # rest" rule: rev_cases) auto
  have gp: "g p = l" using cyc_links(3) [OF c] unfolding sn by simp
  have d: "distinct (ys @ [l])" "n \<notin> set (ys @ [l])"
    using c fr unfolding sn [symmetric] by (simp_all add: cyc_def)
  have dp: "distinct (p # rest)" "0 \<notin> set (p # rest)" using c by (simp_all add: cyc_def)
  have "map f (ys @ [l]) = rest @ [p]" using c unfolding sn [symmetric] by (simp add: cyc_def)
  then have fy: "map f ys = rest" by simp
  have pv: "map g rest @ [l] = p # rest" using cyc_links(2) [OF c] gp by simp
  have nl: "n \<noteq> l" using d by auto
  have np: "n \<noteq> p" using fr by auto
  have "map (f(n := p, l := n)) (ys @ [l]) = rest @ [n]" using d fy by simp
  then have A: "map (f(n := p, l := n)) (p # rest) = rest @ [n]" unfolding sn .
  have B: "map (g(n := l, p := n)) rest = map g rest" using dp fr by simp
  have "map (f(n := p, l := n)) (n # p # rest) = rotate1 (n # p # rest)"
    using A nl by simp
  moreover have "map (g(n := l, p := n)) (rotate1 (n # p # rest)) = n # p # rest"
  proof -
    have "map (g(n := l, p := n)) (rotate1 (n # p # rest)) = n # (map (g(n := l, p := n)) rest @ [l])"
      using np by simp
    then show ?thesis by (simp only: B pv)
  qed
  ultimately show ?thesis unfolding gp cyc_def using dp fr by simp
qed

text \<open>Taking the first element out of a cycle of at least two.\<close>

lemma cyc_remove:
  assumes c: "cyc f g (x # rest)" and ne: "rest \<noteq> []"
  shows "cyc (f(g x := f x)) (g(f x := g x)) rest" "f x = hd rest" "g x = last rest"
proof -
  obtain h t where ht: "rest = h # t" using ne by (cases rest) auto
  obtain ys l where sn: "rest = ys @ [l]" using ne by (cases rest rule: rev_cases) auto
  have d: "distinct rest" "0 \<notin> set rest" "x \<notin> set rest" using c by (simp_all add: cyc_def)
  have fx: "f x = h" and ft: "map f rest = t @ [x]"
    using cyc_links(1) [OF c] unfolding ht by simp_all
  have gx: "g x = l" using cyc_links(3) [OF c] ne unfolding sn by simp
  from ft have "map f ys @ [f l] = t @ [x]" unfolding sn by simp
  then have fy: "map f ys = t" by simp
  have "map g rest = butlast (x # rest)"
    using arg_cong [OF cyc_links(2) [OF c], of butlast] by simp
  moreover have "butlast (x # rest) = x # ys" unfolding sn by simp
  ultimately have "map g (h # t) = x # ys" unfolding ht by simp
  then have gt: "map g t = ys" by simp
  have dl: "l \<notin> set ys" using d(1) unfolding sn by simp
  have dh: "h \<notin> set t" using d(1) unfolding ht by simp
  have "map (f(l := h)) (ys @ [l]) = t @ [h]" using dl fy by simp
  then have A: "map (f(l := h)) rest = rotate1 rest" unfolding sn [symmetric] by (simp add: ht)
  have "map (g(h := l)) (t @ [h]) = ys @ [l]" using dh gt by simp
  then have B: "map (g(h := l)) (rotate1 rest) = rest" unfolding sn [symmetric] by (simp add: ht)
  show "cyc (f(g x := f x)) (g(f x := g x)) rest"
    unfolding fx gx cyc_def using A B d ne by simp
  show "f x = hd rest" using fx ht by simp
  show "g x = last rest" using gx sn by simp
qed


lemma in_set_nz: "a \<in> set xs \<Longrightarrow> (0::nat) \<notin> set xs \<Longrightarrow> a \<noteq> 0"
  by (rule notI) simp

lemma cyc_split:
  assumes "cyc f g xs" "a \<in> set xs"
  shows "\<exists>rest. cyc f g (a # rest) \<and> set (a # rest) = set xs \<and> length (a # rest) = length xs"
proof -
  from assms(2) obtain us vs where xs: "xs = us @ a # vs" by (auto simp: in_set_conv_decomp)
  have "rotate (length us) xs = a # vs @ us" unfolding xs by (simp add: rotate_append)
  with cyc_rotate [OF assms(1), of "length us"] have "cyc f g (a # vs @ us)" by simp
  moreover have "set (a # vs @ us) = set xs" "length (a # vs @ us) = length xs"
    unfolding xs by auto
  ultimately show ?thesis by blast
qed

lemma cyc_closed:
  assumes "cyc f g xs" "a \<in> set xs"
  shows "f a \<in> set xs" "g a \<in> set xs" "f a \<noteq> 0" "g a \<noteq> 0"
proof -
  have nx: "map f xs = rotate1 xs" and pv: "map g (rotate1 xs) = xs" and z: "0 \<notin> set xs"
    using assms(1) by (simp_all add: cyc_def)
  have "f a \<in> set (map f xs)" using assms(2) by simp
  then show 1: "f a \<in> set xs" unfolding nx by simp
  have "g a \<in> set (map g (rotate1 xs))" using assms(2) by simp
  then show 2: "g a \<in> set xs" unfolding pv .
  show "f a \<noteq> 0" "g a \<noteq> 0" using in_set_nz [OF 1 z] in_set_nz [OF 2 z] .
qed

lemma cyc_inverse:
  assumes "cyc f g xs" "a \<in> set xs"
  shows "g (f a) = a"
proof -
  from cyc_split [OF assms] obtain rest where c: "cyc f g (a # rest)" by blast
  have e: "rest @ [a] = f a # map f rest" using cyc_links(1) [OF c] by simp
  have "cyc f g (rotate1 (a # rest))" using c by (rule cyc_rotate1)
  then have "cyc f g (f a # map f rest)" using e by simp
  then have "g (f a) = last (f a # map f rest)" by (rule cyc_links(3))
  also have "\<dots> = last (rest @ [a])" using e by simp
  finally show ?thesis by simp
qed

lemma cyc_single:
  assumes "cyc f g (x # rest)"
  shows "f x = x \<longleftrightarrow> rest = []"
proof (cases rest)
  case Nil
  then show ?thesis using cyc_links(1) [OF assms] by simp
next
  case (Cons h t)
  have "f x # map f rest = rest @ [x]" using cyc_links(1) [OF assms(1)] .
  then have "f x = h" unfolding Cons by simp
  moreover have "x \<noteq> h" using assms(1) unfolding Cons by (simp add: cyc_def)
  ultimately show ?thesis using Cons by simp
qed

subsection \<open>Splicing a node into the ring of a state, and out of it\<close>

lemma cycle_splice:
  assumes c: "cycle s xs" and p: "p \<in> set xs" and n: "n \<notin> set xs" "n \<noteq> 0"
    and nx: "(\<lambda>a. next (mem s' a)) = (\<lambda>a. next (mem s a))(n := p, prev (mem s p) := n)"
    and pv: "(\<lambda>a. prev (mem s' a)) = (\<lambda>a. prev (mem s a))(n := prev (mem s p), p := n)"
  shows "\<exists>rest. cycle s' (n # p # rest) \<and> set (p # rest) = set xs \<and> length (p # rest) = length xs"
proof -
  from cyc_split [OF c [unfolded cycle_def] p] obtain rest
    where r: "cyc (\<lambda>a. next (mem s a)) (\<lambda>a. prev (mem s a)) (p # rest)"
      and e: "set (p # rest) = set xs" "length (p # rest) = length xs" by blast
  have "n \<notin> set (p # rest)" using n e by simp
  from cyc_insert [OF r this n(2)] have "cycle s' (n # p # rest)"
    unfolding cycle_def nx pv .
  then show ?thesis using e by blast
qed

lemma cycle_unsplice:
  assumes c: "cycle s xs" and x: "x \<in> set xs" and ne: "next (mem s x) \<noteq> x"
    and nx: "(\<lambda>a. next (mem s' a)) = (\<lambda>a. next (mem s a))(prev (mem s x) := next (mem s x))"
    and pv: "(\<lambda>a. prev (mem s' a)) = (\<lambda>a. prev (mem s a))(next (mem s x) := prev (mem s x))"
  shows "\<exists>rest. cycle s' rest \<and> set rest = set xs - {x} \<and> Suc (length rest) = length xs \<and>
           hd rest = next (mem s x)"
proof -
  from cyc_split [OF c [unfolded cycle_def] x] obtain rest
    where r: "cyc (\<lambda>a. next (mem s a)) (\<lambda>a. prev (mem s a)) (x # rest)"
      and e: "set (x # rest) = set xs" "length (x # rest) = length xs" by blast
  have rn: "rest \<noteq> []" using cyc_single [OF r] ne by simp
  have xr: "x \<notin> set rest" using r by (simp add: cyc_def)
  have "cycle s' rest" using cyc_remove(1) [OF r rn] unfolding cycle_def nx pv .
  moreover have "set rest = set xs - {x}" using e(1) xr by auto
  moreover have "Suc (length rest) = length xs" using e(2) by simp
  moreover have "hd rest = next (mem s x)" using cyc_remove(2) [OF r rn] by simp
  ultimately show ?thesis by blast
qed

lemma ring_of_cycle:
  assumes "cycle s xs" "head (lst s) \<in> set xs"
  shows "\<exists>ns. ring s ns \<and> set ns = set xs \<and> length ns = length xs"
proof -
  from cyc_split [OF assms(1) [unfolded cycle_def] assms(2)] obtain rest
    where r: "cycle s (head (lst s) # rest)"
      and e: "set (head (lst s) # rest) = set xs" "length (head (lst s) # rest) = length xs"
    unfolding cycle_def by blast
  have "0 \<notin> set xs" using assms(1) by (simp add: cycle_def cyc_def)
  then have "head (lst s) \<noteq> 0" using in_set_nz [OF assms(2)] by simp
  then have "ring s (head (lst s) # rest)" using r by (simp add: ring_cycle)
  then show ?thesis using e by blast
qed

lemma cycle_cong:
  assumes "\<And>a. a \<in> set xs \<Longrightarrow> next (mem s' a) = next (mem s a)"
    and "\<And>a. a \<in> set xs \<Longrightarrow> prev (mem s' a) = prev (mem s a)"
  shows "cycle s' xs \<longleftrightarrow> cycle s xs"
  unfolding cycle_def using assms by (intro cyc_cong) simp_all

subsection \<open>Releasing a node\<close>

lemma slot_cong: "node_buf (lst s') = node_buf (lst s) \<Longrightarrow> slot cfg s' i = slot cfg s i"
  by (simp add: slot_def)

lemma slot_in_range:
  assumes "0 < NODE_SIZE cfg" "i < max_nodes (lst s)"
  shows "node_buf (lst s) \<le> slot cfg s i"
    "slot cfg s i < node_buf (lst s) + max_nodes (lst s) * NODE_SIZE cfg"
proof -
  show "node_buf (lst s) \<le> slot cfg s i" by (simp add: slot_def)
  have "i * NODE_SIZE cfg < max_nodes (lst s) * NODE_SIZE cfg" using assms by simp
  then show "slot cfg s i < node_buf (lst s) + max_nodes (lst s) * NODE_SIZE cfg"
    by (simp add: slot_def)
qed

lemma slot_eq_iff: "0 < NODE_SIZE cfg \<Longrightarrow> slot cfg s i = slot cfg s j \<longleftrightarrow> i = j"
  by (simp add: slot_def)

lemma calc_node_index_slot:
  assumes "0 < NODE_SIZE cfg" "node_buf (lst s) \<noteq> 0" "i \<le> ZT_MAX cfg"
  shows "zerolist_calc_node_index cfg s (slot cfg s i) = i"
  using assms by (simp add: zerolist_calc_node_index_def slot_def ZT_id)

lemma is_static_node_slot:
  assumes "0 < NODE_SIZE cfg" "node_buf (lst s) \<noteq> 0" "i < max_nodes (lst s)" "\<not> USE_MALLOC cfg"
  shows "zerolist_is_static_node cfg s (slot cfg s i)"
  using assms slot_in_range [OF assms(1,3)]
  by (simp add: zerolist_is_static_node_def Let_def)

lemma free_node_heap:
  assumes "cur \<noteq> 0"
    "USE_MALLOC cfg \<or> (STATIC_FALLBACK_MALLOC cfg \<and> \<not> zerolist_is_static_node cfg s cur)"
  shows "zerolist_free_node cfg s cur = s\<lparr>freed := freed s @ [cur]\<rparr>"
  using assms by (auto simp: zerolist_free_node_def ZEROLIST_FREE_def)

lemma free_node_slot:
  assumes sz: "0 < NODE_SIZE cfg" and nm: "\<not> USE_MALLOC cfg"
    and nb: "node_buf (lst s) \<noteq> 0" and i: "i < max_nodes (lst s)" "max_nodes (lst s) \<le> ZT_MAX cfg"
    and fs: "FAST_ALLOC cfg \<longrightarrow> free_stack (lst s) \<noteq> 0 \<and> free_top (lst s) < max_nodes (lst s)"
  shows "lst (zerolist_free_node cfg s (slot cfg s i)) =
           (if FAST_ALLOC cfg then (lst s)\<lparr>free_top := Suc (free_top (lst s))\<rparr> else lst s)"
    "stk (zerolist_free_node cfg s (slot cfg s i)) =
           (if FAST_ALLOC cfg then (stk s)(free_top (lst s) := i) else stk s)"
    "env (zerolist_free_node cfg s (slot cfg s i)) = env s"
    "freed (zerolist_free_node cfg s (slot cfg s i)) = freed s"
    "in_use (mem (zerolist_free_node cfg s (slot cfg s i)) a) = (a \<noteq> slot cfg s i \<and> in_use (mem s a))"
    "a \<noteq> slot cfg s i \<Longrightarrow> mem (zerolist_free_node cfg s (slot cfg s i)) a = mem s a"
proof -
  let ?c = "slot cfg s i"
  have cz: "?c \<noteq> 0" using nb by (simp add: slot_def)
  have iz: "i \<le> ZT_MAX cfg" using i by simp
  have ix: "zerolist_calc_node_index cfg s ?c = i" using calc_node_index_slot [OF sz nb iz] .
  have st: "zerolist_is_static_node cfg s ?c" using is_static_node_slot [OF sz nb i(1) nm] .
  have e: "zerolist_free_node cfg s ?c = ZEROLIST_FREE_STATIC_NODE cfg s ?c i"
    using cz nm st ix by (simp add: zerolist_free_node_def)
  have ft: "FAST_ALLOC cfg \<Longrightarrow> ZT cfg (Suc (free_top (lst s))) = Suc (free_top (lst s))"
    using fs i by (intro ZT_id) simp
  show "lst (zerolist_free_node cfg s ?c) =
           (if FAST_ALLOC cfg then (lst s)\<lparr>free_top := Suc (free_top (lst s))\<rparr> else lst s)"
    "stk (zerolist_free_node cfg s ?c) =
           (if FAST_ALLOC cfg then (stk s)(free_top (lst s) := i) else stk s)"
    "env (zerolist_free_node cfg s ?c) = env s"
    "freed (zerolist_free_node cfg s ?c) = freed s"
    "in_use (mem (zerolist_free_node cfg s ?c) a) = (a \<noteq> ?c \<and> in_use (mem s a))"
    "a \<noteq> ?c \<Longrightarrow> mem (zerolist_free_node cfg s ?c) a = mem s a"
    unfolding e using cz fs i ft
    by (simp_all add: ZEROLIST_FREE_STATIC_NODE_def ZEROLIST_FREE_TO_STACK_def NODE_SET_FREE_def
        Let_def)
qed

lemma stack_room:
  assumes "stack_ok cfg s" "i < max_nodes (lst s)" "in_use (mem s (slot cfg s i))"
  shows "free_top (lst s) < max_nodes (lst s)"
proof -
  let ?S = "set (map (stk s) [0..<free_top (lst s)])"
  have "card ?S = length (map (stk s) [0..<free_top (lst s)])"
    using assms(1) by (intro distinct_card) (simp add: stack_ok_def)
  then have c: "card ?S = free_top (lst s)" by simp
  have "?S = set (filter (\<lambda>i. \<not> in_use (mem s (slot cfg s i))) [0..<max_nodes (lst s)])"
    using assms(1) by (simp add: stack_ok_def)
  then have "?S \<subseteq> {..<max_nodes (lst s)} - {i}" using assms(3) by auto
  then have "card ?S \<le> card ({..<max_nodes (lst s)} - {i})" by (intro card_mono) auto
  moreover have "card ({..<max_nodes (lst s)} - {i}) = max_nodes (lst s) - 1"
    using assms(2) by simp
  ultimately show ?thesis using c assms(2) by linarith
qed


lemma free_node_ok:
  assumes vc: "valid_config cfg"
    and l: "\<not> USE_MALLOC cfg \<longrightarrow> live_ok cfg s (cur # L) \<and> (FAST_ALLOC cfg \<longrightarrow> stack_ok cfg s)"
    and d: "cur \<notin> set L" and cz: "cur \<noteq> 0"
  shows "\<not> USE_MALLOC cfg \<longrightarrow>
           live_ok cfg (zerolist_free_node cfg s cur) L \<and>
           (FAST_ALLOC cfg \<longrightarrow> stack_ok cfg (zerolist_free_node cfg s cur))"
    "head (lst (zerolist_free_node cfg s cur)) = head (lst s)"
    "size_l (lst (zerolist_free_node cfg s cur)) = size_l (lst s)"
    "env (zerolist_free_node cfg s cur) = env s"
    "\<And>a. a \<noteq> cur \<Longrightarrow> mem (zerolist_free_node cfg s cur) a = mem s a"
proof -
  let ?s' = "zerolist_free_node cfg s cur"
  have sz: "0 < NODE_SIZE cfg" using vc by (simp add: valid_config_def)
  consider (heap) "USE_MALLOC cfg"
    | (out) "\<not> USE_MALLOC cfg" "STATIC_FALLBACK_MALLOC cfg"
        "\<not> (node_buf (lst s) \<le> cur \<and> cur < node_buf (lst s) + max_nodes (lst s) * NODE_SIZE cfg)"
    | (slot) i where "\<not> USE_MALLOC cfg" "i < max_nodes (lst s)" "cur = slot cfg s i"
    using l by (auto simp: live_ok_def)
  then have "(\<not> USE_MALLOC cfg \<longrightarrow> live_ok cfg ?s' L \<and> (FAST_ALLOC cfg \<longrightarrow> stack_ok cfg ?s')) \<and>
     head (lst ?s') = head (lst s) \<and> size_l (lst ?s') = size_l (lst s) \<and> env ?s' = env s \<and>
     (\<forall>a. a \<noteq> cur \<longrightarrow> mem ?s' a = mem s a)"
  proof cases
    case heap
    then show ?thesis using free_node_heap [OF cz, of cfg s] by simp
  next
    case out
    have ns: "\<not> zerolist_is_static_node cfg s cur"
      using out(3) by (auto simp: zerolist_is_static_node_def Let_def)
    have e: "?s' = s\<lparr>freed := freed s @ [cur]\<rparr>"
      using free_node_heap [OF cz, of cfg s] out(2) ns by simp
    have lo: "live_ok cfg s (cur # L)" and so: "FAST_ALLOC cfg \<longrightarrow> stack_ok cfg s"
      using l out(1) by simp_all
    have nc: "slot cfg s i \<noteq> cur" if "i < max_nodes (lst s)" for i
      using slot_in_range [OF sz that] out(3) by auto
    have "live_ok cfg ?s' L"
      unfolding e using lo nc by (auto simp: live_ok_def)
    moreover have "FAST_ALLOC cfg \<longrightarrow> stack_ok cfg ?s'"
      unfolding e using so by (simp add: stack_ok_def)
    ultimately show ?thesis unfolding e by simp
  next
    case (slot i)
    have lo: "live_ok cfg s (cur # L)" and so: "FAST_ALLOC cfg \<longrightarrow> stack_ok cfg s"
      using l slot(1) by simp_all
    have nb: "node_buf (lst s) \<noteq> 0" and mx: "max_nodes (lst s) \<le> ZT_MAX cfg"
      using lo by (simp_all add: live_ok_def)
    have iu: "in_use (mem s (slot cfg s i))" using lo slot(2,3) by (simp add: live_ok_def)
    have fs: "FAST_ALLOC cfg \<longrightarrow> free_stack (lst s) \<noteq> 0 \<and> free_top (lst s) < max_nodes (lst s)"
      using so stack_room [OF _ slot(2) iu] by (auto simp: stack_ok_def)
    note f = free_node_slot [OF sz slot(1) nb slot(2) mx fs, folded slot(3)]
    have sl: "slot cfg ?s' j = slot cfg s j" for j
      using f(1) by (intro slot_cong) simp
    have eq: "slot cfg s j = cur \<longleftrightarrow> j = i" for j
      unfolding slot(3) using sz by (simp add: slot_eq_iff)
    have nbm: "node_buf (lst ?s') = node_buf (lst s)" "max_nodes (lst ?s') = max_nodes (lst s)"
      by (simp_all add: f(1))
    have a1: "in_use (mem s (slot cfg s j)) \<longleftrightarrow> slot cfg s j \<in> set (cur # L)"
      if "j < max_nodes (lst s)" for j
      using lo that by (simp add: live_ok_def)
    have a2: "(slot cfg s j \<noteq> cur \<and> in_use (mem s (slot cfg s j))) \<longleftrightarrow> slot cfg s j \<in> set L"
      if "j < max_nodes (lst s)" for j
      using a1 [OF that] d by auto
    have a3: "\<forall>a \<in> set L.
        (\<exists>i < max_nodes (lst s). a = slot cfg s i) \<or>
        (STATIC_FALLBACK_MALLOC cfg \<and>
         \<not> (node_buf (lst s) \<le> a \<and> a < node_buf (lst s) + max_nodes (lst s) * NODE_SIZE cfg))"
      using lo by (simp add: live_ok_def)
    have a4: "0 < max_nodes (lst s)" using slot(2) by simp
    have lo': "live_ok cfg ?s' L"
      unfolding live_ok_def sl f(5) nbm
      using nb a4 mx a2 a3 by simp
    have so': "stack_ok cfg ?s'" if fa: "FAST_ALLOC cfg"
    proof -
      have s0: "stack_ok cfg s" using so fa by simp
      let ?ft = "free_top (lst s)"
      have m: "map (stk ?s') [0..<free_top (lst ?s')] = map (stk s) [0..<?ft] @ [i]"
        using f(1,2) fa by simp
      have fl: "set (filter (\<lambda>j. \<not> in_use (mem ?s' (slot cfg ?s' j))) [0..<max_nodes (lst ?s')])
                = insert i (set (filter (\<lambda>j. \<not> in_use (mem s (slot cfg s j))) [0..<max_nodes (lst s)]))"
        unfolding sl f(5) using f(1) fa eq slot(2) by auto
      have ni: "i \<notin> set (map (stk s) [0..<?ft])"
        using s0 iu by (simp add: stack_ok_def)
      show ?thesis
        unfolding stack_ok_def m fl
        using s0 ni fs fa f(1) by (simp add: stack_ok_def)
    qed
    show ?thesis using lo' so' f(1,3,6) by simp
  qed
  then show "\<not> USE_MALLOC cfg \<longrightarrow> live_ok cfg ?s' L \<and> (FAST_ALLOC cfg \<longrightarrow> stack_ok cfg ?s')"
    "head (lst ?s') = head (lst s)" "size_l (lst ?s') = size_l (lst s)" "env ?s' = env s"
    "\<And>a. a \<noteq> cur \<Longrightarrow> mem ?s' a = mem s a"
    by simp_all
qed

subsection \<open>Detaching a node\<close>

lemma detach_node_sel:
  "stk (zerolist_detach_node s cur) = stk s"
  "env (zerolist_detach_node s cur) = env s"
  "freed (zerolist_detach_node s cur) = freed s"
  "in_use (mem (zerolist_detach_node s cur) a) = in_use (mem s a)"
  "data (mem (zerolist_detach_node s cur) a) = data (mem s a)"
  "node_buf (lst (zerolist_detach_node s cur)) = node_buf (lst s)"
  "max_nodes (lst (zerolist_detach_node s cur)) = max_nodes (lst s)"
  "free_top (lst (zerolist_detach_node s cur)) = free_top (lst s)"
  "free_stack (lst (zerolist_detach_node s cur)) = free_stack (lst s)"
  "size_l (lst (zerolist_detach_node s cur)) = size_l (lst s)"
  by (simp_all add: zerolist_detach_node_def Let_def)

lemma cycle_lst [simp]: "cycle (s\<lparr>lst := l\<rparr>) xs = cycle s xs"
  by (simp add: cycle_def)

lemma detach_ring:
  assumes r: "ring s ns" and c: "cur \<in> set ns"
  shows "\<exists>ns'. ring (zerolist_detach_node s cur) ns' \<and> set ns' = set ns - {cur} \<and>
           Suc (length ns') = length ns"
proof -
  have h: "head (lst s) \<noteq> 0" using r c by (auto simp: ring_def split: if_splits)
  have cy: "cycle s ns" and hd: "hd ns = head (lst s)" using r h by (simp_all add: ring_cycle)
  have hin: "head (lst s) \<in> set ns" using hd c by (cases ns) auto
  note cc = cy [unfolded cycle_def]
  have cz: "cur \<noteq> 0" using cyc_closed [OF cc c] cc c in_set_nz by (simp add: cyc_def)
  from cyc_split [OF cc c] obtain rest where
    sp: "cyc (\<lambda>a. next (mem s a)) (\<lambda>a. prev (mem s a)) (cur # rest)"
    and se: "set (cur # rest) = set ns" "length (cur # rest) = length ns" by blast
  show ?thesis
  proof (cases "next (mem s cur) = cur")
    case True
    then have "rest = []" using cyc_single [OF sp] by simp
    then have ns1: "set ns = {cur}" "length ns = 1" using se by auto
    have "ring (zerolist_detach_node s cur) []"
      using cz True by (simp add: zerolist_detach_node_def ring_def)
    then show ?thesis using ns1 by (intro exI [of _ "[]"]) simp
  next
    case False
    let ?p = "prev (mem s cur)" and ?n = "next (mem s cur)"
    let ?s2 = "wr_prev (wr_next s ?p ?n) ?n ?p"
    have pn: "?p \<noteq> 0" "?n \<noteq> 0" using cyc_closed(3,4) [OF cc c] by simp_all
    have nx: "(\<lambda>a. next (mem ?s2 a)) = (\<lambda>a. next (mem s a))(?p := ?n)"
      and pv: "(\<lambda>a. prev (mem ?s2 a)) = (\<lambda>a. prev (mem s a))(?n := ?p)"
      by (simp_all add: fun_eq_iff)
    from cycle_unsplice [OF cy c False nx pv] obtain rest' where
      u: "cycle ?s2 rest'" "set rest' = set ns - {cur}" "Suc (length rest') = length ns"
        "hd rest' = ?n" by blast
    have rn: "rest' \<noteq> []" using u(1) by (simp add: cycle_def cyc_def)
    have e: "zerolist_detach_node s cur =
        (if cur = head (lst s) then ?s2\<lparr>lst := (lst s)\<lparr>head := ?n\<rparr>\<rparr> else ?s2)"
      using cz False pn by (auto simp: zerolist_detach_node_def Let_def)
    show ?thesis
    proof (cases "cur = head (lst s)")
      case True
      have "ring (?s2\<lparr>lst := (lst s)\<lparr>head := ?n\<rparr>\<rparr>) rest'"
        using u(1,4) pn by (simp add: ring_cycle)
      then show ?thesis using e True u by auto
    next
      case nh: False
      have "head (lst ?s2) \<in> set rest'" using hin nh u(2) by simp
      from ring_of_cycle [OF u(1) this] obtain ns' where
        "ring ?s2 ns'" "set ns' = set rest'" "length ns' = length rest'" by blast
      then show ?thesis using e nh u by auto
    qed
  qed
qed

subsection \<open>Removing a node from a well-formed list\<close>

lemma ZT_dec_ZT:
  assumes "0 < n"
  shows "ZT_dec cfg (ZT cfg n) = ZT cfg (n - 1)"
proof -
  let ?K = "(2::nat) ^ TYPE_BITS cfg"
  have k: "0 < ?K" by simp
  have "(n mod ?K + (?K - 1)) mod ?K = (n + (?K - 1)) mod ?K" by (rule mod_add_left_eq)
  also have "n + (?K - 1) = (n - 1) + ?K" using assms k by linarith
  also have "((n - 1) + ?K) mod ?K = (n - 1) mod ?K" by simp
  finally show ?thesis by (simp add: ZT_dec_def ZT_def ZT_MAX_def)
qed

lemma size_dec_sel [simp]:
  "mem (size_dec cfg s) = mem s" "stk (size_dec cfg s) = stk s"
  "env (size_dec cfg s) = env s" "freed (size_dec cfg s) = freed s"
  "head (lst (size_dec cfg s)) = head (lst s)"
  "node_buf (lst (size_dec cfg s)) = node_buf (lst s)"
  "max_nodes (lst (size_dec cfg s)) = max_nodes (lst s)"
  "free_top (lst (size_dec cfg s)) = free_top (lst s)"
  "free_stack (lst (size_dec cfg s)) = free_stack (lst s)"
  "size_l (lst (size_dec cfg s)) =
     (if SIZE_ENABLE cfg then ZT_dec cfg (size_l (lst s)) else size_l (lst s))"
  "slot cfg' (size_dec cfg s) i = slot cfg' s i"
  by (simp_all add: size_dec_def slot_def)

lemma detach_size_dec:
  "zerolist_detach_node (size_dec cfg s) cur = size_dec cfg (zerolist_detach_node s cur)"
  by (simp add: zerolist_detach_node_def size_dec_def Let_def wr_next_def wr_prev_def)

lemma live_ok_cong:
  assumes "node_buf (lst s') = node_buf (lst s)" "max_nodes (lst s') = max_nodes (lst s)"
    and "\<And>i. i < max_nodes (lst s) \<Longrightarrow>
           in_use (mem s' (slot cfg s i)) = in_use (mem s (slot cfg s i))"
    and "set L' = set L"
  shows "live_ok cfg s' L' \<longleftrightarrow> live_ok cfg s L"
proof -
  have sl: "slot cfg s' i = slot cfg s i" for i using assms(1) by (rule slot_cong)
  show ?thesis unfolding live_ok_def sl assms(1,2,4) using assms(3) by auto
qed

lemma stack_ok_cong:
  assumes "node_buf (lst s') = node_buf (lst s)" "max_nodes (lst s') = max_nodes (lst s)"
    and "free_top (lst s') = free_top (lst s)" "free_stack (lst s') = free_stack (lst s)"
    and "stk s' = stk s"
    and "\<And>i. i < max_nodes (lst s) \<Longrightarrow>
           in_use (mem s' (slot cfg s i)) = in_use (mem s (slot cfg s i))"
  shows "stack_ok cfg s' \<longleftrightarrow> stack_ok cfg s"
proof -
  have sl: "slot cfg s' i = slot cfg s i" for i using assms(1) by (rule slot_cong)
  have "filter (\<lambda>i. \<not> in_use (mem s' (slot cfg s i))) [0..<max_nodes (lst s)]
      = filter (\<lambda>i. \<not> in_use (mem s (slot cfg s i))) [0..<max_nodes (lst s)]"
    using assms(6) by (intro filter_cong) auto
  then show ?thesis unfolding stack_ok_def sl assms(1-5) by simp
qed

lemma detach_free_ok:
  assumes vc: "valid_config cfg" and r: "ring s ns"
    and l: "\<not> USE_MALLOC cfg \<longrightarrow> live_ok cfg s ns \<and> (FAST_ALLOC cfg \<longrightarrow> stack_ok cfg s)"
    and c: "cur \<in> set ns"
  shows "\<exists>ns'. ring (zerolist_free_node cfg (zerolist_detach_node s cur) cur) ns' \<and>
           Suc (length ns') = length ns \<and>
           (\<not> USE_MALLOC cfg \<longrightarrow>
              live_ok cfg (zerolist_free_node cfg (zerolist_detach_node s cur) cur) ns' \<and>
              (FAST_ALLOC cfg \<longrightarrow>
                 stack_ok cfg (zerolist_free_node cfg (zerolist_detach_node s cur) cur))) \<and>
           size_l (lst (zerolist_free_node cfg (zerolist_detach_node s cur) cur)) = size_l (lst s) \<and>
           env (zerolist_free_node cfg (zerolist_detach_node s cur) cur) = env s"
proof -
  let ?s1 = "zerolist_detach_node s cur"
  let ?s2 = "zerolist_free_node cfg ?s1 cur"
  have z: "0 \<notin> set ns" using r by (auto simp: ring_def split: if_splits)
  have cz: "cur \<noteq> 0" using in_set_nz [OF c z] .
  from detach_ring [OF r c] obtain ns' where
    r1: "ring ?s1 ns'" and se: "set ns' = set ns - {cur}" and le: "Suc (length ns') = length ns"
    by blast
  have sc: "set (cur # ns') = set ns" using se c by auto
  have d: "cur \<notin> set ns'" using se by simp
  note ds = detach_node_sel [of s cur]
  have l1: "\<not> USE_MALLOC cfg \<longrightarrow> live_ok cfg ?s1 (cur # ns') \<and> (FAST_ALLOC cfg \<longrightarrow> stack_ok cfg ?s1)"
  proof (intro impI conjI)
    assume "\<not> USE_MALLOC cfg"
    then have "live_ok cfg s ns" using l by simp
    moreover have "live_ok cfg ?s1 (cur # ns') \<longleftrightarrow> live_ok cfg s ns"
      using ds sc by (intro live_ok_cong) simp_all
    ultimately show "live_ok cfg ?s1 (cur # ns')" by simp
  next
    assume "\<not> USE_MALLOC cfg" "FAST_ALLOC cfg"
    then have "stack_ok cfg s" using l by simp
    moreover have "stack_ok cfg ?s1 \<longleftrightarrow> stack_ok cfg s"
      using ds by (intro stack_ok_cong) simp_all
    ultimately show "stack_ok cfg ?s1" by simp
  qed
  note f = free_node_ok [OF vc l1 d cz]
  have r2: "ring ?s2 ns'"
  proof -
    have fm: "mem ?s2 a = mem ?s1 a" if "a \<in> set ns'" for a
    proof -
      have "a \<noteq> cur" using that d by blast
      then show ?thesis by (rule f(5))
    qed
    have "ring ?s2 ns' \<longleftrightarrow> ring ?s1 ns'"
      using f(2) by (intro ring_cong) (simp_all add: fm)
    then show ?thesis using r1 by simp
  qed
  have "size_l (lst ?s2) = size_l (lst s)" "env ?s2 = env s" using f(3,4) ds by simp_all
  then show ?thesis using r2 le f(1) by blast
qed

text \<open>
  The three orders in which the removal functions decrement the counter, detach the node
  and release it.
\<close>

lemma wf_size_dec:
  assumes "wf cfg s ns"
  shows "valid_config cfg" "ring (size_dec cfg s) ns"
    "\<not> USE_MALLOC cfg \<longrightarrow>
       live_ok cfg (size_dec cfg s) ns \<and> (FAST_ALLOC cfg \<longrightarrow> stack_ok cfg (size_dec cfg s))"
proof -
  show "valid_config cfg" using assms by (simp add: wf_def)
  have "ring (size_dec cfg s) ns \<longleftrightarrow> ring s ns" by (intro ring_cong) simp_all
  then show "ring (size_dec cfg s) ns" using assms by (simp add: wf_def)
  have "live_ok cfg (size_dec cfg s) ns \<longleftrightarrow> live_ok cfg s ns"
    by (intro live_ok_cong) simp_all
  moreover have "stack_ok cfg (size_dec cfg s) \<longleftrightarrow> stack_ok cfg s"
    by (intro stack_ok_cong) simp_all
  ultimately show "\<not> USE_MALLOC cfg \<longrightarrow>
       live_ok cfg (size_dec cfg s) ns \<and> (FAST_ALLOC cfg \<longrightarrow> stack_ok cfg (size_dec cfg s))"
    using assms by (simp add: wf_def)
qed

lemma size_dec_length:
  assumes "SIZE_ENABLE cfg \<longrightarrow> size_l (lst s) = ZT cfg (length ns)" "Suc (length ns') = length ns"
  shows "SIZE_ENABLE cfg \<longrightarrow> size_l (lst (size_dec cfg s)) = ZT cfg (length ns')"
proof
  assume se: "SIZE_ENABLE cfg"
  have "ZT_dec cfg (ZT cfg (length ns)) = ZT cfg (length ns - 1)"
    using assms(2) by (intro ZT_dec_ZT) auto
  then show "size_l (lst (size_dec cfg s)) = ZT cfg (length ns')"
    using se assms(1) assms(2) [symmetric] by simp
qed

lemma dec_detach_free_wf:
  assumes w: "wf cfg s ns" and c: "cur \<in> set ns"
  shows "\<exists>ns'. wf cfg (zerolist_free_node cfg (zerolist_detach_node (size_dec cfg s) cur) cur) ns' \<and>
           Suc (length ns') = length ns \<and>
           env (zerolist_free_node cfg (zerolist_detach_node (size_dec cfg s) cur) cur) = env s"
proof -
  let ?s' = "zerolist_free_node cfg (zerolist_detach_node (size_dec cfg s) cur) cur"
  note d = wf_size_dec [OF w]
  from detach_free_ok [OF d c] obtain ns' where
    "ring ?s' ns'" and le: "Suc (length ns') = length ns"
    and "\<not> USE_MALLOC cfg \<longrightarrow> live_ok cfg ?s' ns' \<and> (FAST_ALLOC cfg \<longrightarrow> stack_ok cfg ?s')"
    and sz: "size_l (lst ?s') = size_l (lst (size_dec cfg s))" and "env ?s' = env (size_dec cfg s)"
    by blast
  moreover have "SIZE_ENABLE cfg \<longrightarrow> size_l (lst ?s') = ZT cfg (length ns')"
    unfolding sz using w le by (intro size_dec_length) (simp_all add: wf_def)
  ultimately have "wf cfg ?s' ns'" "env ?s' = env s" using d(1) by (simp_all add: wf_def)
  then show ?thesis using le by blast
qed

lemma remove_node_wf:
  assumes w: "wf cfg s ns" and c: "cur \<in> set ns"
  shows "\<exists>ns'. wf cfg (remove_node cfg s cur) ns' \<and> Suc (length ns') = length ns \<and>
           env (remove_node cfg s cur) = env s"
proof -
  let ?s2 = "zerolist_free_node cfg (zerolist_detach_node s cur) cur"
  have vc: "valid_config cfg" and r: "ring s ns"
    and l: "\<not> USE_MALLOC cfg \<longrightarrow> live_ok cfg s ns \<and> (FAST_ALLOC cfg \<longrightarrow> stack_ok cfg s)"
    using w by (simp_all add: wf_def)
  from detach_free_ok [OF vc r l c] obtain ns' where
    r2: "ring ?s2 ns'" and le: "Suc (length ns') = length ns"
    and l2: "\<not> USE_MALLOC cfg \<longrightarrow> live_ok cfg ?s2 ns' \<and> (FAST_ALLOC cfg \<longrightarrow> stack_ok cfg ?s2)"
    and sz: "size_l (lst ?s2) = size_l (lst s)" and e2: "env ?s2 = env s"
    by blast
  have "SIZE_ENABLE cfg \<longrightarrow> size_l (lst ?s2) = ZT cfg (length ns)"
    using w sz by (simp add: wf_def)
  then have s3: "SIZE_ENABLE cfg \<longrightarrow> size_l (lst (size_dec cfg ?s2)) = ZT cfg (length ns')"
    using le by (rule size_dec_length)
  have r3: "ring (size_dec cfg ?s2) ns'"
  proof -
    have "ring (size_dec cfg ?s2) ns' \<longleftrightarrow> ring ?s2 ns'"
      by (intro ring_cong) simp_all
    then show ?thesis using r2 by simp
  qed
  have l3: "\<not> USE_MALLOC cfg \<longrightarrow>
      live_ok cfg (size_dec cfg ?s2) ns' \<and> (FAST_ALLOC cfg \<longrightarrow> stack_ok cfg (size_dec cfg ?s2))"
  proof -
    have "live_ok cfg (size_dec cfg ?s2) ns' \<longleftrightarrow> live_ok cfg ?s2 ns'"
      by (intro live_ok_cong) simp_all
    moreover have "stack_ok cfg (size_dec cfg ?s2) \<longleftrightarrow> stack_ok cfg ?s2"
      by (intro stack_ok_cong) simp_all
    ultimately show ?thesis using l2 by simp
  qed
  have "wf cfg (size_dec cfg ?s2) ns'" using vc r3 s3 l3 by (simp add: wf_def)
  moreover have "env (size_dec cfg ?s2) = env s" using e2 by simp
  ultimately show ?thesis using le by (auto simp: remove_node_def Let_def)
qed

subsection \<open>The removal functions on a well-formed list\<close>

lemma wf_head:
  assumes "wf cfg s ns" "head (lst s) \<noteq> 0"
  shows "head (lst s) \<in> set ns" "prev (mem s (head (lst s))) \<in> set ns"
proof -
  have r: "ring s ns" using assms(1) by (simp add: wf_def)
  have "ns \<noteq> []" "hd ns = head (lst s)" using ring_nonempty(1,2) [OF r assms(2)] .
  then show h: "head (lst s) \<in> set ns" by (cases ns) auto
  show "prev (mem s (head (lst s))) \<in> set ns" using ring_prev_in [OF r h] .
qed

lemma pop_front_wf:
  assumes w: "wf cfg s ns"
  shows "\<exists>ns'. wf cfg (snd (zerolist_pop_front cfg s)) ns' \<and> length ns' \<le> length ns"
proof (cases "head (lst s) = 0")
  case True
  then show ?thesis using w by (auto simp: zerolist_pop_front_def)
next
  case False
  from dec_detach_free_wf [OF w wf_head(1) [OF w False]]
  show ?thesis using False by (auto simp: zerolist_pop_front_def Let_def)
qed

lemma pop_back_wf:
  assumes w: "wf cfg s ns"
  shows "\<exists>ns'. wf cfg (snd (zerolist_pop_back cfg s)) ns' \<and> length ns' \<le> length ns"
proof (cases "head (lst s) = 0")
  case True
  then show ?thesis using w by (auto simp: zerolist_pop_back_def)
next
  case False
  from dec_detach_free_wf [OF w wf_head(2) [OF w False]]
  show ?thesis using False by (auto simp: zerolist_pop_back_def Let_def)
qed

lemma walk_index_in:
  assumes w: "wf cfg s ns" and h: "head (lst s) \<noteq> 0"
    and k: "walk_index s (head (lst s)) ix = Some cur"
  shows "cur \<in> set ns"
proof -
  have r: "ring s ns" using w by (simp add: wf_def)
  show ?thesis using k walk_index_head [OF r h, of ix] by (auto split: if_splits)
qed

lemma pop_at_wf:
  assumes w: "wf cfg s ns"
  shows "\<exists>ns'. wf cfg (snd (zerolist_pop_at cfg s ix)) ns' \<and> length ns' \<le> length ns"
proof (cases "head (lst s) = 0 \<or> (SIZE_ENABLE cfg \<and> ix \<ge> size_l (lst s))
              \<or> walk_index s (head (lst s)) ix = None")
  case True
  then have "snd (zerolist_pop_at cfg s ix) = s" by (auto simp: zerolist_pop_at_def)
  then show ?thesis using w by auto
next
  case False
  then obtain cur where k: "walk_index s (head (lst s)) ix = Some cur" and h: "head (lst s) \<noteq> 0"
    and g: "\<not> (SIZE_ENABLE cfg \<and> ix \<ge> size_l (lst s))"
    by auto
  have e: "snd (zerolist_pop_at cfg s ix)
             = zerolist_free_node cfg (zerolist_detach_node (size_dec cfg s) cur) cur"
    using h g k by (auto simp: zerolist_pop_at_def Let_def detach_size_dec)
  from dec_detach_free_wf [OF w walk_index_in [OF w h k]]
  show ?thesis unfolding e by auto
qed

lemma remove_at_wf:
  assumes w: "wf cfg s ns"
  shows "\<exists>ns'. wf cfg (snd (zerolist_remove_at cfg s ix)) ns' \<and> length ns' \<le> length ns"
proof (cases "head (lst s) = 0 \<or> (SIZE_ENABLE cfg \<and> ix \<ge> size_l (lst s))
              \<or> walk_index s (head (lst s)) ix = None")
  case True
  then have "snd (zerolist_remove_at cfg s ix) = s" by (auto simp: zerolist_remove_at_def)
  then show ?thesis using w by auto
next
  case False
  then obtain cur where k: "walk_index s (head (lst s)) ix = Some cur" and h: "head (lst s) \<noteq> 0"
    and g: "\<not> (SIZE_ENABLE cfg \<and> ix \<ge> size_l (lst s))"
    by auto
  have e: "snd (zerolist_remove_at cfg s ix) = remove_node cfg s cur"
    using h g k by (auto simp: zerolist_remove_at_def Let_def remove_node_def)
  from remove_node_wf [OF w walk_index_in [OF w h k]]
  show ?thesis unfolding e by auto
qed

lemma remove_scan_wf:
  assumes w: "wf cfg s ns" and c: "\<not> USE_MALLOC cfg"
  shows "\<exists>ns'. wf cfg (snd (remove_scan cfg s P)) ns' \<and> length ns' \<le> length ns"
proof (cases "find (\<lambda>i. NODE_IS_IN_USE s (slot cfg s i) \<and> P (data (mem s (slot cfg s i))))
                [0..<max_nodes (lst s)]")
  case None
  then show ?thesis using w by (auto simp: remove_scan_def)
next
  case (Some i)
  then have i: "i < max_nodes (lst s)" "in_use (mem s (slot cfg s i))"
    by (auto simp: find_Some_iff NODE_IS_IN_USE_def)
  have "live_ok cfg s ns" using w c by (simp add: wf_def)
  then have "slot cfg s i \<in> set ns" using i by (simp add: live_ok_def)
  from remove_node_wf [OF w this] show ?thesis using Some by (auto simp: remove_scan_def)
qed

lemma remove_walk_ring:
  assumes r: "ring s ns" and h: "head (lst s) \<noteq> 0"
  shows "k < length ns \<Longrightarrow>
         \<exists>res. remove_walk cfg s P (head (lst s)) (ns ! k) = Some res \<and>
               (res = (False, s) \<or> (\<exists>c\<in>set ns. res = (True, remove_node cfg s c)))"
proof (induction "length ns - k" arbitrary: k)
  case 0
  then show ?case by simp
next
  case (Suc d)
  have nx: "next (mem s (ns ! k)) = ns ! (Suc k mod length ns)"
    using ring_next_nth [OF r h Suc.prems] .
  have kin: "ns ! k \<in> set ns" using Suc.prems by simp
  have nz: "next (mem s (ns ! k)) \<noteq> 0"
    using in_set_nz [OF ring_next_in [OF r kin] ring_nonempty(4) [OF r h]] .
  show ?case
  proof (cases "P (data (mem s (ns ! k)))")
    case True
    then show ?thesis using kin by (subst remove_walk.simps) auto
  next
    case np: False
    show ?thesis
    proof (cases "Suc k = length ns")
      case True
      then have "next (mem s (ns ! k)) = head (lst s)"
        using nx ring_head_nth [OF r h] by simp
      then show ?thesis using np nz by (subst remove_walk.simps) simp
    next
      case False
      then have lt: "Suc k < length ns" using Suc.prems by simp
      then have nx': "next (mem s (ns ! k)) = ns ! Suc k" using nx by simp
      have "0 < length ns" using lt by auto
      then have "ns ! Suc k \<noteq> ns ! 0"
        using ring_nonempty(3) [OF r h] lt nth_eq_iff_index_eq [of ns "Suc k" 0] by simp
      then have nh: "next (mem s (ns ! k)) \<noteq> head (lst s)"
        using nx' ring_head_nth [OF r h] by simp
      have d: "d = length ns - Suc k" using Suc.hyps(2) by simp
      from Suc.hyps(1) [OF d lt] show ?thesis
        using np nz nh nx' by (subst remove_walk.simps) simp
    qed
  qed
qed

lemma remove_walk_wf:
  assumes w: "wf cfg s ns" and h: "head (lst s) \<noteq> 0"
  shows "\<exists>res ns'. remove_walk cfg s P (head (lst s)) (head (lst s)) = Some res \<and>
           wf cfg (snd res) ns' \<and> length ns' \<le> length ns"
proof -
  have r: "ring s ns" using w by (simp add: wf_def)
  have "0 < length ns" using ring_nonempty(1) [OF r h] by simp
  from remove_walk_ring [OF r h this, of cfg P] obtain res where
    e: "remove_walk cfg s P (head (lst s)) (head (lst s)) = Some res"
    and c: "res = (False, s) \<or> (\<exists>c\<in>set ns. res = (True, remove_node cfg s c))"
    using ring_head_nth [OF r h] by auto
  from c show ?thesis
  proof
    assume "res = (False, s)"
    then show ?thesis using e w by auto
  next
    assume "\<exists>c\<in>set ns. res = (True, remove_node cfg s c)"
    then obtain c where c: "c \<in> set ns" "res = (True, remove_node cfg s c)" by blast
    from remove_node_wf [OF w c(1)] show ?thesis using e c(2) by auto
  qed
qed

lemma remove_ptr_wf:
  assumes w: "wf cfg s ns"
  shows "\<exists>res ns'. zerolist_remove_ptr cfg s d = Some res \<and> wf cfg (snd res) ns' \<and>
           length ns' \<le> length ns"
proof -
  consider (null) "d = 0" | (scan) "d \<noteq> 0" "\<not> USE_MALLOC cfg" "\<not> STATIC_FALLBACK_MALLOC cfg"
    | (empty) "d \<noteq> 0" "\<not> (\<not> USE_MALLOC cfg \<and> \<not> STATIC_FALLBACK_MALLOC cfg)" "head (lst s) = 0"
    | (walk) "d \<noteq> 0" "\<not> (\<not> USE_MALLOC cfg \<and> \<not> STATIC_FALLBACK_MALLOC cfg)" "head (lst s) \<noteq> 0"
    by blast
  then show ?thesis
  proof cases
    case null
    then show ?thesis using w by (auto simp: zerolist_remove_ptr_def)
  next
    case scan
    from remove_scan_wf [OF w scan(2), of "\<lambda>x. x = d"] show ?thesis
      using scan by (auto simp: zerolist_remove_ptr_def)
  next
    case empty
    then show ?thesis using w by (auto simp: zerolist_remove_ptr_def)
  next
    case walk
    from remove_walk_wf [OF w walk(3), of "\<lambda>x. x = d"] show ?thesis
      using walk by (auto simp: zerolist_remove_ptr_def)
  qed
qed

lemma remove_if_wf:
  assumes w: "wf cfg s ns"
  shows "\<exists>res ns'. zerolist_remove_if cfg s d cmp_func = Some res \<and> wf cfg (snd res) ns' \<and>
           length ns' \<le> length ns"
proof (cases cmp_func)
  case None
  then show ?thesis using w by (auto simp: zerolist_remove_if_def)
next
  case (Some cmp)
  consider (scan) "\<not> USE_MALLOC cfg" "\<not> STATIC_FALLBACK_MALLOC cfg"
    | (empty) "\<not> (\<not> USE_MALLOC cfg \<and> \<not> STATIC_FALLBACK_MALLOC cfg)" "head (lst s) = 0"
    | (walk) "\<not> (\<not> USE_MALLOC cfg \<and> \<not> STATIC_FALLBACK_MALLOC cfg)" "head (lst s) \<noteq> 0"
    by blast
  then show ?thesis
  proof cases
    case scan
    from remove_scan_wf [OF w scan(1), of "\<lambda>x. cmp x d"] show ?thesis
      using scan Some by (auto simp: zerolist_remove_if_def)
  next
    case empty
    then show ?thesis using w Some by (auto simp: zerolist_remove_if_def)
  next
    case walk
    from remove_walk_wf [OF w walk(2), of "\<lambda>x. cmp x d"] show ?thesis
      using walk Some by (auto simp: zerolist_remove_if_def)
  qed
qed

subsection \<open>Taking a slot of the arena\<close>

lemma init_static_node_mem:
  assumes "node \<noteq> 0"
  shows "in_use (mem (snd (init_static_node cfg s node idx)) a) = (a = node \<or> in_use (mem s a))"
    "a \<noteq> node \<Longrightarrow> mem (snd (init_static_node cfg s node idx)) a = mem s a"
  using assms by (simp_all add: init_static_node_def NODE_SET_IN_USE_def Let_def)

lemma stack_okD:
  assumes "stack_ok cfg s"
  shows "free_stack (lst s) \<noteq> 0" "free_top (lst s) \<le> max_nodes (lst s)"
    "distinct (map (stk s) [0..<free_top (lst s)])"
    "set (map (stk s) [0..<free_top (lst s)]) =
       set (filter (\<lambda>i. \<not> in_use (mem s (slot cfg s i))) [0..<max_nodes (lst s)])"
  using assms by (simp_all add: stack_ok_def)

lemma try_alloc_none:
  assumes nb: "node_buf (lst s) \<noteq> 0" and z: "fst (ZEROLIST_TRY_ALLOC_STATIC cfg s 0 0) = 0"
  shows "ZEROLIST_TRY_ALLOC_STATIC cfg s 0 0 = (0, 0, s)"
proof -
  have sl: "slot cfg t i \<noteq> 0" if "node_buf (lst t) = node_buf (lst s)" for t i
    using nb that by (simp add: slot_def)
  show ?thesis
  proof (cases "FAST_ALLOC cfg")
    case True
    have "free_top (lst s) = 0"
    proof (rule ccontr)
      assume "free_top (lst s) \<noteq> 0"
      then have "fst (ZEROLIST_TRY_ALLOC_STATIC cfg s 0 0) \<noteq> 0"
        using True nb
        by (simp add: ZEROLIST_TRY_ALLOC_STATIC_def ZEROLIST_ALLOC_FROM_STACK_def Let_def slot_def)
      then show False using z by simp
    qed
    then show ?thesis using True
      by (simp add: ZEROLIST_TRY_ALLOC_STATIC_def ZEROLIST_ALLOC_FROM_STACK_def)
  next
    case False
    show ?thesis
    proof (cases "find (\<lambda>i. \<not> NODE_IS_IN_USE s (slot cfg s i)) [0..<max_nodes (lst s)]")
      case None
      then show ?thesis using False
        by (simp add: ZEROLIST_TRY_ALLOC_STATIC_def ZEROLIST_ALLOC_FROM_SEARCH_def)
    next
      case (Some i)
      then have "fst (ZEROLIST_TRY_ALLOC_STATIC cfg s 0 0) = slot cfg s i" using False
        by (simp add: ZEROLIST_TRY_ALLOC_STATIC_def ZEROLIST_ALLOC_FROM_SEARCH_def)
      then show ?thesis using z sl [of s i] by simp
    qed
  qed
qed

lemma try_alloc_some:
  assumes sz: "0 < NODE_SIZE cfg" and nm: "\<not> USE_MALLOC cfg"
    and l: "live_ok cfg s L" and st: "FAST_ALLOC cfg \<longrightarrow> stack_ok cfg s"
    and t: "ZEROLIST_TRY_ALLOC_STATIC cfg s 0 0 = (node, idx, s1)" and nz: "node \<noteq> 0"
  shows "took cfg s L node (snd (init_static_node cfg s1 node idx))"
    "env (snd (init_static_node cfg s1 node idx)) = env s"
    "node_buf (lst (snd (init_static_node cfg s1 node idx))) = node_buf (lst s)"
    "max_nodes (lst (snd (init_static_node cfg s1 node idx))) = max_nodes (lst s)"
proof -
  let ?s2 = "snd (init_static_node cfg s1 node idx)"
  have nb: "node_buf (lst s) \<noteq> 0" and mx: "max_nodes (lst s) \<le> ZT_MAX cfg"
    and iu: "\<And>i. i < max_nodes (lst s) \<Longrightarrow> in_use (mem s (slot cfg s i)) \<longleftrightarrow> slot cfg s i \<in> set L"
    and el: "\<forall>a \<in> set L.
        (\<exists>i < max_nodes (lst s). a = slot cfg s i) \<or>
        (STATIC_FALLBACK_MALLOC cfg \<and>
         \<not> (node_buf (lst s) \<le> a \<and> a < node_buf (lst s) + max_nodes (lst s) * NODE_SIZE cfg))"
    and mp: "0 < max_nodes (lst s)"
    using l by (simp_all add: live_ok_def)
  have core: "idx < max_nodes (lst s) \<and> node = slot cfg s idx \<and> \<not> in_use (mem s (slot cfg s idx)) \<and>
     mem s1 = mem s \<and> env s1 = env s \<and>
     lst s1 = (if FAST_ALLOC cfg then (lst s)\<lparr>free_top := free_top (lst s) - 1\<rparr> else lst s) \<and>
     stk s1 = stk s \<and>
     (FAST_ALLOC cfg \<longrightarrow> 0 < free_top (lst s) \<and> idx = stk s (free_top (lst s) - 1))"
  proof (cases "FAST_ALLOC cfg")
    case True
    have s0: "stack_ok cfg s" using st True by simp
    have fp: "0 < free_top (lst s)"
    proof (rule ccontr)
      assume "\<not> 0 < free_top (lst s)"
      then have "fst (ZEROLIST_TRY_ALLOC_STATIC cfg s 0 0) = 0" using True
        by (simp add: ZEROLIST_TRY_ALLOC_STATIC_def ZEROLIST_ALLOC_FROM_STACK_def)
      then show False using t nz by simp
    qed
    have "free_top (lst s) \<le> max_nodes (lst s)" using s0 by (simp add: stack_ok_def)
    then have "free_top (lst s) - 1 \<le> ZT_MAX cfg" using mx by linarith
    then have zt: "ZT cfg (free_top (lst s) - 1) = free_top (lst s) - 1" by (rule ZT_id)
    have e: "idx = stk s (free_top (lst s) - 1)" "node = slot cfg s idx"
      "s1 = s\<lparr>lst := (lst s)\<lparr>free_top := free_top (lst s) - 1\<rparr>\<rparr>"
      using t True fp zt
      by (auto simp: ZEROLIST_TRY_ALLOC_STATIC_def ZEROLIST_ALLOC_FROM_STACK_def Let_def slot_def)
    have "idx \<in> set (map (stk s) [0..<free_top (lst s)])" using e(1) fp by auto
    then have "idx \<in> set (filter (\<lambda>i. \<not> in_use (mem s (slot cfg s i))) [0..<max_nodes (lst s)])"
      using s0 by (simp add: stack_ok_def)
    then have "idx < max_nodes (lst s)" "\<not> in_use (mem s (slot cfg s idx))" by simp_all
    then show ?thesis using e True fp by simp
  next
    case False
    obtain i where f: "find (\<lambda>i. \<not> NODE_IS_IN_USE s (slot cfg s i)) [0..<max_nodes (lst s)] = Some i"
    proof (cases "find (\<lambda>i. \<not> NODE_IS_IN_USE s (slot cfg s i)) [0..<max_nodes (lst s)]")
      case None
      then have "fst (ZEROLIST_TRY_ALLOC_STATIC cfg s 0 0) = 0" using False
        by (simp add: ZEROLIST_TRY_ALLOC_STATIC_def ZEROLIST_ALLOC_FROM_SEARCH_def)
      then show ?thesis using t nz by simp
    next
      case (Some i)
      then show ?thesis using that by blast
    qed
    have e: "node = slot cfg s i" "idx = i" "s1 = s"
      using t False f by (auto simp: ZEROLIST_TRY_ALLOC_STATIC_def ZEROLIST_ALLOC_FROM_SEARCH_def)
    have "i < max_nodes (lst s)" "\<not> NODE_IS_IN_USE s (slot cfg s i)"
      using f by (auto simp: find_Some_iff)
    moreover have "slot cfg s i \<noteq> 0" using nb by (simp add: slot_def)
    ultimately show ?thesis using e False by (simp add: NODE_IS_IN_USE_def)
  qed
  then have ix: "idx < max_nodes (lst s)" and nd: "node = slot cfg s idx"
    and fr: "\<not> in_use (mem s (slot cfg s idx))" and m1: "mem s1 = mem s" and e1: "env s1 = env s"
    and l1: "lst s1 = (if FAST_ALLOC cfg then (lst s)\<lparr>free_top := free_top (lst s) - 1\<rparr> else lst s)"
    and k1: "stk s1 = stk s"
    and fa: "FAST_ALLOC cfg \<longrightarrow> 0 < free_top (lst s) \<and> idx = stk s (free_top (lst s) - 1)"
    by simp_all
  have nbm: "node_buf (lst ?s2) = node_buf (lst s)" "max_nodes (lst ?s2) = max_nodes (lst s)"
    "head (lst ?s2) = head (lst s)" "size_l (lst ?s2) = size_l (lst s)"
    by (simp_all add: l1)
  have sl: "slot cfg ?s2 j = slot cfg s j" for j using nbm(1) by (rule slot_cong)
  have iu2: "in_use (mem ?s2 a) = (a = node \<or> in_use (mem s a))" for a
    using init_static_node_mem(1) [OF nz, of cfg s1 idx a] m1 by simp
  have m2: "mem ?s2 a = mem s a" if "a \<noteq> node" for a
    using init_static_node_mem(2) [OF nz that, of cfg s1 idx] m1 by simp
  have nl: "node \<notin> set L" using iu [OF ix] fr nd by simp
  have lo: "live_ok cfg ?s2 (node # L)"
    unfolding live_ok_def sl nbm iu2
    using nb mp mx iu el ix nd by auto
  have so: "stack_ok cfg ?s2" if f: "FAST_ALLOC cfg"
  proof -
    have s0: "stack_ok cfg s" using st f by simp
    let ?ft = "free_top (lst s)"
    have fp: "0 < ?ft" and ie: "idx = stk s (?ft - 1)" using fa f by simp_all
    have sp: "[0..<?ft] = [0..<?ft - 1] @ [?ft - 1]" using fp by (cases ?ft) simp_all
    have ms: "map (stk s) [0..<?ft] = map (stk s) [0..<?ft - 1] @ [idx]"
      by (subst sp) (simp add: ie)
    have d: "distinct (map (stk s) [0..<?ft - 1] @ [idx])" using s0 unfolding ms [symmetric]
      by (simp add: stack_ok_def)
    have se: "set (map (stk s) [0..<?ft - 1] @ [idx])
              = set (filter (\<lambda>i. \<not> in_use (mem s (slot cfg s i))) [0..<max_nodes (lst s)])"
      using s0 unfolding ms [symmetric] by (simp add: stack_ok_def)
    have eq: "slot cfg s j = node \<longleftrightarrow> j = idx" for j
      unfolding nd using sz by (simp add: slot_eq_iff)
    have ft2: "free_top (lst ?s2) = ?ft - 1" "free_stack (lst ?s2) = free_stack (lst s)"
      "stk ?s2 = stk s"
      using f by (simp_all add: l1 k1)
    have "set (map (stk s) [0..<?ft - 1])
          = set (filter (\<lambda>i. \<not> (slot cfg s i = node \<or> in_use (mem s (slot cfg s i)))) [0..<max_nodes (lst s)])"
      using d se eq by auto
    moreover have "free_stack (lst s) \<noteq> 0" using stack_okD(1) [OF s0] .
    moreover have "?ft - 1 \<le> max_nodes (lst s)" using stack_okD(2) [OF s0] by linarith
    moreover have "distinct (map (stk s) [0..<?ft - 1])" using d by simp
    ultimately show ?thesis
      unfolding stack_ok_def sl nbm iu2 ft2 by simp
  qed
  show "took cfg s L node ?s2"
    unfolding took_def using nz nl nbm m2 lo so by simp
  show "env ?s2 = env s" using e1 by simp
  show "node_buf (lst ?s2) = node_buf (lst s)" "max_nodes (lst ?s2) = max_nodes (lst s)"
    using nbm by simp_all
qed

subsection \<open>Linking the acquired node\<close>

lemma insert_internal_link:
  "zerolist_insert_internal cfg s pos0 d before_pos =
     (case zerolist_alloc_node cfg s of
        None \<Rightarrow> None
      | Some (node, s1) \<Rightarrow>
          if node = 0 then Some (False, s1)
          else Some (True, link_node cfg (wr_data s1 node d) node
                             (fixed_pos cfg s (wr_data s1 node d) pos0) before_pos))"
  by (simp add: zerolist_insert_internal_def link_node_def fixed_pos_def Let_def
      split: option.split prod.split)


lemma size_inc_sel [simp]:
  "mem (size_inc cfg s) = mem s" "stk (size_inc cfg s) = stk s"
  "env (size_inc cfg s) = env s" "freed (size_inc cfg s) = freed s"
  "head (lst (size_inc cfg s)) = head (lst s)"
  "node_buf (lst (size_inc cfg s)) = node_buf (lst s)"
  "max_nodes (lst (size_inc cfg s)) = max_nodes (lst s)"
  "free_top (lst (size_inc cfg s)) = free_top (lst s)"
  "free_stack (lst (size_inc cfg s)) = free_stack (lst s)"
  "size_l (lst (size_inc cfg s)) =
     (if SIZE_ENABLE cfg then ZT cfg (size_l (lst s) + 1) else size_l (lst s))"
  by (simp_all add: size_inc_def)

lemma wr_keep:
  "in_use (mem (wr_next s a v) x) = in_use (mem s x)"
  "in_use (mem (wr_prev s a v) x) = in_use (mem s x)"
  "in_use (mem (wr_data s a v) x) = in_use (mem s x)"
  "data (mem (wr_next s a v) x) = data (mem s x)"
  "data (mem (wr_prev s a v) x) = data (mem s x)"
  by simp_all

lemma link_node_sel:
  "stk (link_node cfg s2 node pos1 b) = stk s2"
  "env (link_node cfg s2 node pos1 b) = env s2"
  "freed (link_node cfg s2 node pos1 b) = freed s2"
  "in_use (mem (link_node cfg s2 node pos1 b) a) = in_use (mem s2 a)"
  "data (mem (link_node cfg s2 node pos1 b) a) = data (mem s2 a)"
  "node_buf (lst (link_node cfg s2 node pos1 b)) = node_buf (lst s2)"
  "max_nodes (lst (link_node cfg s2 node pos1 b)) = max_nodes (lst s2)"
  "free_top (lst (link_node cfg s2 node pos1 b)) = free_top (lst s2)"
  "free_stack (lst (link_node cfg s2 node pos1 b)) = free_stack (lst s2)"
  unfolding link_node_def Let_def
  by (simp_all add: wr_keep del: wr_next_sel(5) wr_prev_sel(5) wr_data_sel(5))

lemma ZT_Suc_ZT: "ZT cfg (Suc (ZT cfg n)) = ZT cfg (Suc n)"
  unfolding ZT_def using mod_add_left_eq [of n "2 ^ TYPE_BITS cfg" 1] by simp

lemma ZT_one: "0 < TYPE_BITS cfg \<Longrightarrow> ZT cfg 1 = 1"
  by (simp add: ZT_def)

lemma link_node_ring:
  assumes r: "ring s2 ns" and n: "node \<noteq> 0" "node \<notin> set ns"
    and p: "pos1 = 0 \<or> pos1 \<in> set ns"
  shows "\<exists>ns'. ring (link_node cfg s2 node pos1 b) ns' \<and> set ns' = insert node (set ns) \<and>
           length ns' = Suc (length ns)"
proof (cases "head (lst s2) = 0")
  case True
  then have e: "ns = []" using r by (simp add: ring_def)
  have "ring (link_node cfg s2 node pos1 b) [node]"
    using True n by (simp add: link_node_def Let_def ring_def)
  then show ?thesis using e by (intro exI [of _ "[node]"]) simp
next
  case False
  have cy: "cycle s2 ns" and hd: "hd ns = head (lst s2)" using r False by (simp_all add: ring_cycle)
  note cc = cy [unfolded cycle_def]
  have ne: "ns \<noteq> []" using ring_nonempty(1) [OF r False] .
  have hin: "head (lst s2) \<in> set ns" using hd ne by (cases ns) auto
  define pos where "pos = (if pos1 = 0
      then (if b then head (lst s2) else prev (mem s2 (head (lst s2)))) else pos1)"
  have pin: "pos \<in> set ns"
    using p hin ring_prev_in [OF r hin] by (auto simp: pos_def)
  have pn: "pos \<noteq> node" using pin n(2) by auto
  show ?thesis
  proof (cases b)
    case True
    let ?s6 = "wr_prev (wr_next (wr_next (wr_prev s2 node (prev (mem s2 pos))) node pos)
                 (prev (mem s2 pos)) node) pos node"
    have nx: "(\<lambda>a. next (mem ?s6 a)) = (\<lambda>a. next (mem s2 a))(node := pos, prev (mem s2 pos) := node)"
      and pv: "(\<lambda>a. prev (mem ?s6 a)) = (\<lambda>a. prev (mem s2 a))(node := prev (mem s2 pos), pos := node)"
      using pn by (auto simp: fun_eq_iff)
    from cycle_splice [OF cy pin n(2,1) nx pv] obtain rest where
      c6: "cycle ?s6 (node # pos # rest)" and se: "set (pos # rest) = set ns"
      and le: "length (pos # rest) = length ns" by blast
    have e: "link_node cfg s2 node pos1 b =
        size_inc cfg (if pos = head (lst s2) then ?s6\<lparr>lst := (lst s2)\<lparr>head := node\<rparr>\<rparr> else ?s6)"
      using False True pn by (simp add: link_node_def Let_def pos_def)
    show ?thesis
    proof (cases "pos = head (lst s2)")
      case ph: True
      let ?s7 = "?s6\<lparr>lst := (lst s2)\<lparr>head := node\<rparr>\<rparr>"
      have "ring ?s7 (node # pos # rest)" using c6 n(1) by (simp add: ring_cycle)
      moreover have "ring (size_inc cfg ?s7) (node # pos # rest) \<longleftrightarrow> ring ?s7 (node # pos # rest)"
        by (intro ring_cong) simp_all
      ultimately have "ring (link_node cfg s2 node pos1 b) (node # pos # rest)"
        using e ph by simp
      then show ?thesis using se le by (intro exI [of _ "node # pos # rest"]) auto
    next
      case ph: False
      have "head (lst ?s6) \<in> set (node # pos # rest)" using hin se by auto
      from ring_of_cycle [OF c6 this] obtain ns' where
        r6: "ring ?s6 ns'" and s6: "set ns' = set (node # pos # rest)"
        and l6: "length ns' = length (node # pos # rest)" by blast
      have "ring (size_inc cfg ?s6) ns' \<longleftrightarrow> ring ?s6 ns'"
        by (intro ring_cong) simp_all
      then have "ring (link_node cfg s2 node pos1 b) ns'" using e ph r6 by simp
      then show ?thesis using s6 l6 se le by (intro exI [of _ ns']) auto
    qed
  next
    case nb: False
    let ?q = "next (mem s2 pos)"
    let ?s6 = "wr_next (wr_prev (wr_prev (wr_next s2 node ?q) node pos) ?q node) pos node"
    have qin: "?q \<in> set ns" using cyc_closed(1) [OF cc pin] .
    have qn: "?q \<noteq> node" using qin n(2) by auto
    have pq: "prev (mem s2 ?q) = pos" using cyc_inverse [OF cc pin] .
    have nx: "(\<lambda>a. next (mem ?s6 a)) = (\<lambda>a. next (mem s2 a))(node := ?q, prev (mem s2 ?q) := node)"
      and pv: "(\<lambda>a. prev (mem ?s6 a)) = (\<lambda>a. prev (mem s2 a))(node := prev (mem s2 ?q), ?q := node)"
      unfolding pq using pn qn by (auto simp: fun_eq_iff)
    from cycle_splice [OF cy qin n(2,1) nx pv] obtain rest where
      c6: "cycle ?s6 (node # ?q # rest)" and se: "set (?q # rest) = set ns"
      and le: "length (?q # rest) = length ns" by blast
    have e: "link_node cfg s2 node pos1 b = size_inc cfg ?s6"
      using False nb pn by (simp add: link_node_def Let_def pos_def)
    have "head (lst ?s6) \<in> set (node # ?q # rest)" using hin se by auto
    from ring_of_cycle [OF c6 this] obtain ns' where
      r6: "ring ?s6 ns'" and s6: "set ns' = set (node # ?q # rest)"
      and l6: "length ns' = length (node # ?q # rest)" by blast
    have "ring (size_inc cfg ?s6) ns' \<longleftrightarrow> ring ?s6 ns'"
      by (intro ring_cong) simp_all
    then have "ring (link_node cfg s2 node pos1 b) ns'" using e r6 by simp
    then show ?thesis using s6 l6 se le by (intro exI [of _ ns']) auto
  qed
qed


lemma link_node_size:
  "size_l (lst (link_node cfg s2 node pos1 b)) =
     (if SIZE_ENABLE cfg
      then (if head (lst s2) = 0 then 1 else ZT cfg (size_l (lst s2) + 1))
      else size_l (lst s2))"
  unfolding link_node_def Let_def by simp

lemma link_node_wf:
  assumes w: "wf cfg t ns" and k: "took cfg t ns node s1" and p: "pos1 = 0 \<or> pos1 \<in> set ns"
  shows "\<exists>ns'. wf cfg (link_node cfg (wr_data s1 node d) node pos1 b) ns' \<and>
           length ns' = Suc (length ns)"
proof -
  let ?s2 = "wr_data s1 node d"
  let ?s' = "link_node cfg ?s2 node pos1 b"
  have vc: "valid_config cfg" and rt: "ring t ns"
    and st: "SIZE_ENABLE cfg \<longrightarrow> size_l (lst t) = ZT cfg (length ns)"
    using w by (simp_all add: wf_def)
  have nz: "node \<noteq> 0" and nn: "node \<notin> set ns"
    and hd: "head (lst s1) = head (lst t)" and sz: "size_l (lst s1) = size_l (lst t)"
    and fm: "\<And>a. a \<noteq> node \<Longrightarrow> mem s1 a = mem t a"
    and lo: "\<not> USE_MALLOC cfg \<longrightarrow> live_ok cfg s1 (node # ns) \<and> (FAST_ALLOC cfg \<longrightarrow> stack_ok cfg s1)"
    using k by (simp_all add: took_def)
  have ms: "next (mem ?s2 a) = next (mem t a)" "prev (mem ?s2 a) = prev (mem t a)"
    if "a \<in> set ns" for a
  proof -
    have "a \<noteq> node" using that nn by blast
    then show "next (mem ?s2 a) = next (mem t a)" "prev (mem ?s2 a) = prev (mem t a)"
      using fm by simp_all
  qed
  have "ring ?s2 ns \<longleftrightarrow> ring t ns"
  proof (rule ring_cong)
    show "head (lst ?s2) = head (lst t)" using hd by simp
  next
    fix a assume "a \<in> set ns"
    then show "next (mem ?s2 a) = next (mem t a)" by (rule ms(1))
  next
    fix a assume "a \<in> set ns"
    then show "prev (mem ?s2 a) = prev (mem t a)" by (rule ms(2))
  qed
  then have r2: "ring ?s2 ns" using rt by simp
  from link_node_ring [OF r2 nz nn p, of cfg b] obtain ns' where
    r': "ring ?s' ns'" and se: "set ns' = insert node (set ns)" and le: "length ns' = Suc (length ns)"
    by blast
  have s': "SIZE_ENABLE cfg \<longrightarrow> size_l (lst ?s') = ZT cfg (length ns')"
  proof
    assume en: "SIZE_ENABLE cfg"
    show "size_l (lst ?s') = ZT cfg (length ns')"
    proof (cases "head (lst ?s2) = 0")
      case True
      then have "ns = []" using r2 by (simp add: ring_def)
      moreover have "ZT cfg 1 = 1" using vc by (intro ZT_one) (simp add: valid_config_def)
      ultimately show ?thesis using en True le by (simp add: link_node_size)
    next
      case False
      have "size_l (lst ?s2) = ZT cfg (length ns)" using st en sz by simp
      then show ?thesis using en False le by (simp add: link_node_size ZT_Suc_ZT)
    qed
  qed
  have l': "\<not> USE_MALLOC cfg \<longrightarrow> live_ok cfg ?s' ns' \<and> (FAST_ALLOC cfg \<longrightarrow> stack_ok cfg ?s')"
  proof -
    have "live_ok cfg ?s' ns' \<longleftrightarrow> live_ok cfg s1 (node # ns)"
      using se by (intro live_ok_cong) (simp_all add: link_node_sel)
    moreover have "stack_ok cfg ?s' \<longleftrightarrow> stack_ok cfg s1"
      by (intro stack_ok_cong) (simp_all add: link_node_sel)
    ultimately show ?thesis using lo by simp
  qed
  have "wf cfg ?s' ns'" using vc r' s' l' by (simp add: wf_def)
  then show ?thesis using le by blast
qed

end
